theory Spec2Isabelle
  imports Main "HOL-Library.Sublist"
begin

section \<open>The retrying fetcher: \<^verbatim>\<open>fetchJsonWithRetry\<close> of youtubeApi.js\<close>

text \<open>
  The remote API is the environment of the code. A call of \<^verbatim>\<open>fetch(url)\<close> either rejects
  (a network failure, with the message of the exception) or resolves with a response, of
  which the code reads the HTTP status, \<^verbatim>\<open>r.ok\<close> (status 200 to 299), the parsed body of a
  successful answer (\<^verbatim>\<open>r.json()\<close>, which rejects on a body that is not JSON) and, of a
  failed answer, \<^verbatim>\<open>body?.error?.message\<close> (absent when the body has no such field or is
  not JSON: \<^verbatim>\<open>r.json().catch(() => ({}))\<close>). Messages are strings, as the API sends them.
\<close>

record 'a response =
  status :: nat
  json :: "string + 'a"
  apiMsg :: "string option"

datatype 'a fetched = Rejected string | Resolved "'a response"

definition ok :: "'a response \<Rightarrow> bool" where
  "ok r = (200 \<le> status r \<and> status r \<le> 299)"

text \<open>
  \<^verbatim>\<open>ytUrl(path, params)\<close> builds the request URL from the path and the query parameters.
  The URL is kept as that pair; numbers among the parameters are written in decimal.
\<close>

datatype url = Url string "(string \<times> string) list"

definition ytUrl :: "string \<Rightarrow> (string \<times> string) list \<Rightarrow> url" where
  "ytUrl path params = Url path params"

text \<open>
  The exception object the fetcher throws: \<^verbatim>\<open>message\<close>, \<^verbatim>\<open>err.status\<close> and
  \<^verbatim>\<open>err.isQuota\<close>. An exception that comes from \<^verbatim>\<open>fetch\<close> or from \<^verbatim>\<open>r.json()\<close>
  has neither field: its status is \<open>None\<close> and \<^verbatim>\<open>e.isQuota\<close> is undefined, which every
  reader tests for truth only.
\<close>

record jsError =
  message :: string
  errStatus :: "nat option"
  isQuota :: bool

datatype io = Fetch url | Sleep int

datatype 'a outcome = Json 'a | Thrown jsError | Undefined

subsection \<open>Strings\<close>

definition digit :: "nat \<Rightarrow> char" where
  "digit d = char_of (48 + d)"

fun showNat :: "nat \<Rightarrow> string" where
  "showNat n = (if n < 10 then [digit n] else showNat (n div 10) @ [digit (n mod 10)])"

declare showNat.simps [simp del]

text \<open>
  \<^verbatim>\<open>toLowerCase\<close> on the letters A to Z; every other character of the message is left as
  it is, which decides \<^verbatim>\<open>includes("quota")\<close> as the full Unicode mapping does on
  Latin text.
\<close>

definition toLowerCase_char :: "char \<Rightarrow> char" where
  "toLowerCase_char c =
     (if 65 \<le> (of_char c :: nat) \<and> (of_char c :: nat) \<le> 90 then char_of ((of_char c :: nat) + 32) else c)"

definition toLowerCase :: "string \<Rightarrow> string" where
  "toLowerCase s = map toLowerCase_char s"

fun includes_str :: "string \<Rightarrow> string \<Rightarrow> bool" where
  "includes_str [] t = (t = [])"
| "includes_str (c # s) t = (prefix t (c # s) \<or> includes_str s t)"

subsection \<open>The fetcher\<close>

text \<open>
  The exception built from a failed response \<open>r\<close>:
  \<^verbatim>\<open>new Error(apiMsg || `HTTP_${r.status}`)\<close>, with \<^verbatim>\<open>err.status = r.status\<close> and
  \<^verbatim>\<open>err.isQuota = r.status === 403 && apiMsg?.toLowerCase().includes("quota")\<close>.
  The empty message is falsy for \<^verbatim>\<open>||\<close>.
\<close>

definition httpError :: "'a response \<Rightarrow> jsError" where
  "httpError r =
     \<lparr> message = (case apiMsg r of
                     Some m \<Rightarrow> if m \<noteq> [] then m else ''HTTP_'' @ showNat (status r)
                   | None \<Rightarrow> ''HTTP_'' @ showNat (status r)),
       errStatus = Some (status r),
       isQuota = (status r = 403 \<and>
                  (case apiMsg r of Some m \<Rightarrow> includes_str (toLowerCase m) ''quota'' | None \<Rightarrow> False)) \<rparr>"

definition plainError :: "string \<Rightarrow> jsError" where
  "plainError m = \<lparr> message = m, errStatus = None, isQuota = False \<rparr>"

text \<open>
  The loop \<^verbatim>\<open>for (let attempt = 0; attempt <= maxRetries; attempt++)\<close>, from a given
  attempt and delay. \<open>net a\<close> is what the \<open>a\<close>-th \<^verbatim>\<open>fetch\<close> of this call meets. The
  result is the list of fetches and sleeps made, and what the call returns or throws;
  falling out of the loop would return \<^verbatim>\<open>undefined\<close>.
\<close>

function fetchJsonWithRetry_from ::
  "(nat \<Rightarrow> 'a fetched) \<Rightarrow> url \<Rightarrow> nat \<Rightarrow> nat \<Rightarrow> int \<Rightarrow> io list \<times> 'a outcome" where
  "fetchJsonWithRetry_from net u maxRetries attempt delay =
     (if attempt \<le> maxRetries then
        (case net attempt of
           Rejected m \<Rightarrow> ([Fetch u], Thrown (plainError m))
         | Resolved r \<Rightarrow>
             if ok r then
               ([Fetch u], case json r of Inl m \<Rightarrow> Thrown (plainError m) | Inr d \<Rightarrow> Json d)
             else if (status r = 403 \<or> status r = 429) \<and> attempt < maxRetries then
               (case fetchJsonWithRetry_from net u maxRetries (attempt + 1) (delay * 2) of
                  (evs, res) \<Rightarrow> (Fetch u # Sleep delay # evs, res))
             else ([Fetch u], Thrown (httpError r)))
      else ([], Undefined))"
  by pat_completeness auto
termination
  by (relation "measure (\<lambda>(net, u, maxRetries, attempt, delay). Suc maxRetries - attempt)") auto

declare fetchJsonWithRetry_from.simps [simp del]

definition fetchJsonWithRetry :: "(nat \<Rightarrow> 'a fetched) \<Rightarrow> url \<Rightarrow> io list \<times> 'a outcome" where
  "fetchJsonWithRetry net u = fetchJsonWithRetry_from net u 3 0 1000"


text \<open>
  A rate-limit-class answer, the only kind the loop retries: status 403 or 429. What the
  call ends with on the answer of the attempt that is not retried.
\<close>

definition rateLimited :: "'a fetched \<Rightarrow> bool" where
  "rateLimited f = (case f of Rejected m \<Rightarrow> False | Resolved r \<Rightarrow> status r = 403 \<or> status r = 429)"

definition finalOutcome :: "'a fetched \<Rightarrow> 'a outcome" where
  "finalOutcome f =
     (case f of
        Rejected m \<Rightarrow> Thrown (plainError m)
      | Resolved r \<Rightarrow>
          if ok r then (case json r of Inl m \<Rightarrow> Thrown (plainError m) | Inr x \<Rightarrow> Json x)
          else Thrown (httpError r))"

section \<open>The concurrency limiter: \<^verbatim>\<open>createLimiter\<close> of limiter.js\<close>

text \<open>
  The closure state of a limiter is \<^verbatim>\<open>active\<close> and \<^verbatim>\<open>queue\<close>. A task is named by a label
  of type \<open>'f\<close>. \<^verbatim>\<open>limit(fn)\<close> creates a promise and queues the object
  \<^verbatim>\<open>{ fn, resolve, reject }\<close>, the task with the two functions that settle that promise.
  Promises are numbered in the order of their creation, and the queued object is the pair
  \<open>(fn, p)\<close> of the task and the number of the promise that its \<^verbatim>\<open>resolve\<close> and
  \<^verbatim>\<open>reject\<close> settle.

  Besides the closure state, the state holds what the run-time system holds: \<open>running\<close>,
  the entries whose \<^verbatim>\<open>fn()\<close> has been called and has not settled; \<open>finishing\<close>, the
  entries whose \<^verbatim>\<open>fn()\<close> has settled and whose \<^verbatim>\<open>finally\<close> callback has not run yet; and
  \<open>promises\<close>, the state of every promise created, pending (\<open>None\<close>) or settled. Two more
  fields are read by no operation: \<open>submitted\<close> and \<open>started\<close> list the entries in the
  order of the calls of \<^verbatim>\<open>limit\<close> and of \<^verbatim>\<open>fn()\<close>.

  JavaScript runs one callback at a time, so the limiter changes state in steps of three
  kinds, each atomic: a call of \<^verbatim>\<open>limit(fn)\<close>; the callbacks of
  \<^verbatim>\<open>.then(resolve).catch(reject)\<close> when the promise of \<^verbatim>\<open>fn()\<close> settles; and, some jobs
  later, the \<^verbatim>\<open>finally\<close> callback. Other code may run between any two of them. Tasks are
  asynchronous functions: \<^verbatim>\<open>fn()\<close> returns a promise and never throws.
\<close>

datatype 'r settlement = Fulfilled 'r | Failed jsError

record ('f, 'r) limiter =
  l_concurrency :: int
  active :: int
  queue :: "('f \<times> nat) list"
  running :: "('f \<times> nat) list"
  finishing :: "('f \<times> nat) list"
  promises :: "nat \<rightharpoonup> 'r settlement"
  submitted :: "('f \<times> nat) list"
  started :: "('f \<times> nat) list"

definition createLimiter :: "int \<Rightarrow> ('f, 'r) limiter" where
  "createLimiter c =
     \<lparr> l_concurrency = c, active = 0, queue = [], running = [], finishing = [],
       promises = Map.empty, submitted = [], started = [] \<rparr>"

text \<open>\<^verbatim>\<open>next()\<close>: start the head of the queue unless the queue is empty or the limiter is full.\<close>

definition next_task :: "('f, 'r) limiter \<Rightarrow> ('f, 'r) limiter" where
  "next_task L =
     (case queue L of
        [] \<Rightarrow> L
      | e # rest \<Rightarrow>
          if active L \<ge> l_concurrency L then L
          else L\<lparr> active := active L + 1, queue := rest,
                  running := running L @ [e], started := started L @ [e] \<rparr>)"

text \<open>
  \<^verbatim>\<open>limit(fn)\<close>: \<^verbatim>\<open>new Promise((resolve, reject) => { queue.push({ fn, resolve, reject });
  next(); })\<close>. The promise it returns is the next one, number \<open>length (submitted L)\<close>.
\<close>

definition limit :: "('f, 'r) limiter \<Rightarrow> 'f \<Rightarrow> ('f, 'r) limiter" where
  "limit L fn =
     next_task (L\<lparr> queue := queue L @ [(fn, length (submitted L))],
                    submitted := submitted L @ [(fn, length (submitted L))] \<rparr>)"

text \<open>
  The promise of \<^verbatim>\<open>fn()\<close> of the running entry \<open>e\<close> settles with \<open>out\<close>:
  \<^verbatim>\<open>.then(resolve).catch(reject)\<close> calls the \<^verbatim>\<open>resolve\<close> or the \<^verbatim>\<open>reject\<close> of the entry
  with it, which settles the promise of the entry unless it is settled already.
\<close>

definition settle :: "('f, 'r) limiter \<Rightarrow> 'f \<times> nat \<Rightarrow> 'r settlement \<Rightarrow> ('f, 'r) limiter" where
  "settle L e out =
     L\<lparr> running := remove1 e (running L), finishing := finishing L @ [e],
        promises := (if promises L (snd e) = None then (promises L)(snd e \<mapsto> out)
                     else promises L) \<rparr>"

text \<open>The \<^verbatim>\<open>finally\<close> callback of the entry \<open>e\<close>: \<^verbatim>\<open>active--; next();\<close>\<close>

definition release :: "('f, 'r) limiter \<Rightarrow> 'f \<times> nat \<Rightarrow> ('f, 'r) limiter" where
  "release L e = next_task (L\<lparr> active := active L - 1, finishing := remove1 e (finishing L) \<rparr>)"

text \<open>
  The states a limiter of capacity \<open>c\<close> can be in, when the task \<open>fn\<close> ends with the
  outcome \<open>run fn\<close>.
\<close>

inductive reachable :: "('f \<Rightarrow> 'r settlement) \<Rightarrow> int \<Rightarrow> ('f, 'r) limiter \<Rightarrow> bool"
  for run :: "'f \<Rightarrow> 'r settlement" and c :: int where
  created: "reachable run c (createLimiter c)"
| limited: "reachable run c L \<Longrightarrow> reachable run c (limit L fn)"
| settled: "reachable run c L \<Longrightarrow> e \<in> set (running L) \<Longrightarrow> reachable run c (settle L e (run (fst e)))"
| released: "reachable run c L \<Longrightarrow> e \<in> set (finishing L) \<Longrightarrow> reachable run c (release L e)"

text \<open>
  \<^verbatim>\<open>await Promise.all(promises)\<close> after every task has been submitted. The tasks settle one
  after the other, here the oldest first and each followed at once by its \<^verbatim>\<open>finally\<close>
  callback, until none is left. The result is the order in which the tasks settled and
  the state of the limiter then, or \<open>None\<close> when tasks are still queued and none is
  running: their promises stay pending and \<^verbatim>\<open>Promise.all\<close> never resolves.
\<close>

function settleAll ::
  "('f \<Rightarrow> 'r settlement) \<Rightarrow> ('f, 'r) limiter \<Rightarrow> ('f list \<times> ('f, 'r) limiter) option" where
  "settleAll run L =
     (case finishing L of
        e # _ \<Rightarrow> settleAll run (release L e)
      | [] \<Rightarrow>
          (case running L of
             e # _ \<Rightarrow>
               map_option (\<lambda>r. (fst e # fst r, snd r)) (settleAll run (settle L e (run (fst e))))
           | [] \<Rightarrow> if queue L = [] then Some ([], L) else None))"
  by pat_completeness auto
termination
  by (relation "measure (\<lambda>(run, L). 2 * length (queue L) + 2 * length (running L) + length (finishing L))")
     (auto simp: settle_def release_def next_task_def split: list.splits)

declare settleAll.simps [simp del]

text \<open>
  The bookkeeping of a limiter is in order: \<^verbatim>\<open>active\<close> counts the entries running or
  finishing, and a task waits in the queue only while the limiter is full.
\<close>

definition tidy :: "('f, 'r) limiter \<Rightarrow> bool" where
  "tidy L = (active L = int (length (running L) + length (finishing L))
             \<and> (queue L = [] \<or> l_concurrency L \<le> active L))"

text \<open>The order of the entries, and the promise each entry settles.\<close>

definition ordered :: "('f, 'r) limiter \<Rightarrow> bool" where
  "ordered L = (submitted L = started L @ queue L
                \<and> map snd (submitted L) = [0..<length (submitted L)]
                \<and> distinct (running L @ finishing L)
                \<and> set (running L @ finishing L) \<subseteq> set (started L))"

definition delivers :: "('f \<Rightarrow> 'r settlement) \<Rightarrow> ('f, 'r) limiter \<Rightarrow> bool" where
  "delivers run L =
     ((\<forall>e \<in> set (submitted L).
          promises L (snd e) =
            (if e \<in> set (queue L) \<union> set (running L) then None else Some (run (fst e))))
      \<and> (\<forall>p. length (submitted L) \<le> p \<longrightarrow> promises L p = None))"

section \<open>The scan: \<^verbatim>\<open>fetchLastUploadDates\<close> of youtubeApi.js\<close>

subsection \<open>Data\<close>

text \<open>
  The settings object, a cache entry as \<^verbatim>\<open>chrome.storage.local\<close> holds it under the key
  \<^verbatim>\<open>cache.<channelId>\<close>, and a result entry. \<^verbatim>\<open>null\<close> and \<^verbatim>\<open>undefined\<close> are both
  \<open>None\<close>: no reader of these objects tells them apart. A result entry carries the fields
  of all three shapes the code builds; a field that a shape leaves out is \<open>None\<close>.
\<close>

record settings =
  apiKey :: string
  cacheTtlHours :: int
  concurrency :: int
  thresholdDays :: int

record cacheEntry =
  uploadsPlaylistId :: "string option"
  lastUploadAt :: "string option"
  lastCheckedAt :: int

datatype scanStatus = Ok | NoUploads | ApiError | QuotaExceeded

datatype jsNumber = NaN | Num int

record resultEntry =
  r_lastUploadAt :: "string option"
  r_daysAgo :: "jsNumber option"
  r_thresholdDays :: int
  r_status :: scanStatus
  r_error :: "string option"

type_synonym storage = "string \<rightharpoonup> cacheEntry"

text \<open>
  The bodies of the two API answers, as far as the code reads them: \<^verbatim>\<open>data.items\<close> (absent
  or a list), of a channel \<^verbatim>\<open>item.id\<close> and
  \<^verbatim>\<open>item.contentDetails?.relatedPlaylists?.uploads\<close>, of a playlist item
  \<^verbatim>\<open>item.contentDetails?.videoPublishedAt\<close>. A playlist item may also carry a
  \<^verbatim>\<open>publishedAt\<close>, which the code never reads.
\<close>

record 'i apiData =
  items :: "'i list option"

record channelItem =
  item_id :: string
  uploads :: "string option"

record playlistItem =
  videoPublishedAt :: "string option"
  publishedAt :: "string option"

text \<open>
  The environment of one scan. Every \<^verbatim>\<open>Date.now()\<close> may read another time: the clock is
  given per place of the call. \<^verbatim>\<open>new Date(s).getTime()\<close> is a parameter (\<open>None\<close> is NaN).
  The API answers are given per call and attempt: \<open>channelsAnswer E k a\<close> answers attempt
  \<open>a\<close> of the batch call for the \<open>k\<close>-th chunk, \<open>playlistItemsAnswer E c a\<close> attempt \<open>a\<close> of
  the detail call for channel \<open>c\<close>. \<open>storageSetError E c\<close> is the message with which
  \<^verbatim>\<open>chrome.storage.local.set\<close> rejects the entry of channel \<open>c\<close>, if it does.
  \<^verbatim>\<open>chrome.storage.local.get\<close> is taken to succeed. Where an id occurs twice in
  \<^verbatim>\<open>channelIds\<close>, both detail calls get the same answers here; the content script sends
  each id once.
\<close>

datatype site = IsFresh string | DaysAgoCached string | DaysAgoFetched string | CacheWrite string

record env =
  now :: "site \<Rightarrow> int"
  getTime :: "string \<Rightarrow> int option"
  channelsAnswer :: "nat \<Rightarrow> nat \<Rightarrow> channelItem apiData fetched"
  playlistItemsAnswer :: "string \<Rightarrow> nat \<Rightarrow> playlistItem apiData fetched"
  storageSetError :: "string \<Rightarrow> string option"

text \<open>
  What a scan does besides returning: the calls of \<^verbatim>\<open>fetchJsonWithRetry\<close> it makes, each
  with its fetches and sleeps. A batch call is listed with its \<^verbatim>\<open>batch\<close>, a detail call
  with its channel and playlist.
\<close>

datatype call = BatchCall "string list" "io list" | DetailCall string string "io list"

fun callSubjects :: "call \<Rightarrow> string set" where
  "callSubjects (BatchCall batch evs) = set batch"
| "callSubjects (DetailCall channelId playlistId evs) = {channelId}"

subsection \<open>Plain objects\<close>

text \<open>
  \<^verbatim>\<open>results\<close> and \<^verbatim>\<open>playlistIdMap\<close> are plain objects used as maps from identifiers. A
  plain object has its own properties and inherits those of its prototype, at first
  \<^verbatim>\<open>Object.prototype\<close>, whose property names are listed here. \<^verbatim>\<open>k in obj\<close> holds for an
  own key and for an inherited name alike.

  An assignment \<^verbatim>\<open>obj[k] = v\<close> creates or updates an own property, with one exception.
  \<^verbatim>\<open>__proto__\<close> is an accessor of \<^verbatim>\<open>Object.prototype\<close>: as long as the object inherits
  it and has no own property of that name, assigning an object to it makes that object the
  prototype (the names inherited are then the keys of that object, itself a plain object,
  and what it inherits), assigning \<^verbatim>\<open>null\<close> removes the prototype, and assigning any other
  value does nothing. An assignment is given with the kind of the value assigned.
\<close>

definition objectPrototype :: "string list" where
  "objectPrototype =
     [''constructor'', ''__defineGetter__'', ''__defineSetter__'', ''hasOwnProperty'',
      ''__lookupGetter__'', ''__lookupSetter__'', ''isPrototypeOf'', ''propertyIsEnumerable'',
      ''toString'', ''valueOf'', ''__proto__'', ''toLocaleString'']"

record 'v jsObject =
  own :: "string \<rightharpoonup> 'v"
  inherited :: "string list"

datatype assigned = Primitive | Null | Object "string list"

definition emptyObject :: "'v jsObject" where
  "emptyObject = \<lparr> own = Map.empty, inherited = objectPrototype \<rparr>"

definition hasProperty :: "'v jsObject \<Rightarrow> string \<Rightarrow> bool" where
  "hasProperty obj k = (own obj k \<noteq> None \<or> k \<in> set (inherited obj))"

definition assign :: "'v jsObject \<Rightarrow> string \<Rightarrow> 'v \<Rightarrow> assigned \<Rightarrow> 'v jsObject" where
  "assign obj k v kind =
     (if k = ''__proto__'' \<and> own obj k = None \<and> k \<in> set (inherited obj) then
        (case kind of
           Primitive \<Rightarrow> obj
         | Null \<Rightarrow> obj\<lparr> inherited := [] \<rparr>
         | Object keys \<Rightarrow> obj\<lparr> inherited := keys @ objectPrototype \<rparr>)
      else obj\<lparr> own := (own obj)(k \<mapsto> v) \<rparr>)"

text \<open>
  An identifier that names a property of \<^verbatim>\<open>Object.prototype\<close>. No YouTube channel id does:
  channel ids begin with \<^verbatim>\<open>UC\<close>, and the content script sends no other id.
\<close>

definition inheritedName :: "string \<Rightarrow> bool" where
  "inheritedName k = (k \<in> set objectPrototype)"

type_synonym results = "resultEntry jsObject"

subsection \<open>Helpers\<close>

definition cacheKey :: "string \<Rightarrow> string" where
  "cacheKey channelId = ''cache.'' @ channelId"

text \<open>Truth of a value that is a string, \<^verbatim>\<open>null\<close> or \<^verbatim>\<open>undefined\<close>: the empty string is falsy.\<close>

definition truthy :: "string option \<Rightarrow> bool" where
  "truthy x = (case x of None \<Rightarrow> False | Some s \<Rightarrow> s \<noteq> [])"

fun join :: "string \<Rightarrow> string list \<Rightarrow> string" where
  "join sep [] = []"
| "join sep [x] = x"
| "join sep (x # y # ys) = x @ sep @ join sep (y # ys)"

text \<open>
  \<^verbatim>\<open>isFresh(cached, cacheTtlHours)\<close>. \<^verbatim>\<open>!cached?.lastCheckedAt\<close> holds for an absent entry
  and for \<^verbatim>\<open>lastCheckedAt\<close> 0.
\<close>

definition isFresh :: "env \<Rightarrow> string \<Rightarrow> cacheEntry option \<Rightarrow> int \<Rightarrow> bool" where
  "isFresh E channelId cached ttlHours =
     (case cached of
        None \<Rightarrow> False
      | Some e \<Rightarrow>
          if lastCheckedAt e = 0 then False
          else now E (IsFresh channelId) - lastCheckedAt e < ttlHours * 60 * 60 * 1000)"

text \<open>
  \<^verbatim>\<open>daysAgo(isoDate)\<close>. The code computes in floating point; the difference and the
  quotient are computed here exactly. The two agree as long as the two times, whole
  milliseconds, are less than \<open>2 ^ 53\<close> milliseconds apart (some 285000 years), where
  the difference is exact and \<^verbatim>\<open>Math.floor\<close> of the rounded quotient is the integer
  quotient rounded down.
\<close>

definition daysAgo :: "env \<Rightarrow> site \<Rightarrow> string option \<Rightarrow> jsNumber option" where
  "daysAgo E at isoDate =
     (case isoDate of
        None \<Rightarrow> None
      | Some s \<Rightarrow>
          if s = [] then None
          else Some (case getTime E s of
                       None \<Rightarrow> NaN
                     | Some t \<Rightarrow> Num ((now E at - t) div (1000 * 60 * 60 * 24))))"

text \<open>
  \<^verbatim>\<open>e.isQuota ? "quota_exceeded" : "api_error"\<close>, and the three shapes of a result entry,
  each with the keys of the object literal that builds it.
\<close>

definition statusOfError :: "jsError \<Rightarrow> scanStatus" where
  "statusOfError e = (if isQuota e then QuotaExceeded else ApiError)"

definition errorResult :: "settings \<Rightarrow> jsError \<Rightarrow> resultEntry" where
  "errorResult s e =
     \<lparr> r_lastUploadAt = None, r_daysAgo = None, r_thresholdDays = thresholdDays s,
       r_status = statusOfError e, r_error = Some (message e) \<rparr>"

definition errorKeys :: "string list" where
  "errorKeys = [''status'', ''error'', ''thresholdDays'']"

definition noUploadsResult :: "settings \<Rightarrow> resultEntry" where
  "noUploadsResult s =
     \<lparr> r_lastUploadAt = None, r_daysAgo = None, r_thresholdDays = thresholdDays s,
       r_status = NoUploads, r_error = None \<rparr>"

definition noUploadsKeys :: "string list" where
  "noUploadsKeys = [''status'', ''daysAgo'', ''thresholdDays'']"

definition timedResult :: "settings \<Rightarrow> string option \<Rightarrow> jsNumber option \<Rightarrow> resultEntry" where
  "timedResult s uploadAt days =
     \<lparr> r_lastUploadAt = uploadAt, r_daysAgo = days, r_thresholdDays = thresholdDays s,
       r_status = (if truthy uploadAt then Ok else NoUploads), r_error = None \<rparr>"

definition timedKeys :: "string list" where
  "timedKeys = [''lastUploadAt'', ''daysAgo'', ''thresholdDays'', ''status'']"

text \<open>
  What \<^verbatim>\<open>data.items\<close> throws on when \<^verbatim>\<open>data\<close> is \<^verbatim>\<open>undefined\<close>; the \<^verbatim>\<open>catch\<close> around
  each call turns it into an entry like any other exception.
\<close>

definition undefinedData :: jsError where
  "undefinedData = plainError ''Cannot read properties of undefined''"

fun thrownBy :: "'a outcome \<Rightarrow> jsError option" where
  "thrownBy (Json d) = None"
| "thrownBy (Thrown e) = Some e"
| "thrownBy Undefined = Some undefinedData"

subsection \<open>Step 1: the cache\<close>

text \<open>
  The body of \<^verbatim>\<open>for (const channelId of channelIds)\<close>, on \<^verbatim>\<open>results\<close> and \<^verbatim>\<open>toFetch\<close>.
  The keys of \<^verbatim>\<open>cached\<close> begin with \<^verbatim>\<open>cache.\<close>, so that no lookup in it meets an
  inherited name. An absent entry is never fresh, so the branch that reads
  \<^verbatim>\<open>entry.lastUploadAt\<close> always finds an entry.
\<close>

definition fromCache ::
  "env \<Rightarrow> settings \<Rightarrow> bool \<Rightarrow> storage \<Rightarrow> results \<times> (string \<times> string option) list \<Rightarrow> string \<Rightarrow>
   results \<times> (string \<times> string option) list" where
  "fromCache E s bypassCache cached acc channelId =
     (case acc of (results, toFetch) \<Rightarrow>
        (let entry = cached (cacheKey channelId) in
         if \<not> bypassCache \<and> isFresh E channelId entry (cacheTtlHours s) then
           (case entry of
              Some e \<Rightarrow>
                (assign results channelId
                   (timedResult s (lastUploadAt e) (daysAgo E (DaysAgoCached channelId) (lastUploadAt e)))
                   (Object timedKeys),
                 toFetch)
            | None \<Rightarrow> (results, toFetch))
         else
           (results,
            toFetch @ [(channelId, case entry of None \<Rightarrow> None | Some e \<Rightarrow> uploadsPlaylistId e)])))"

subsection \<open>Step 2: the batch resolver\<close>

definition channelsUrl :: "settings \<Rightarrow> string list \<Rightarrow> url" where
  "channelsUrl s batch =
     ytUrl ''channels'' [(''part'', ''contentDetails''), (''id'', join '','' batch), (''key'', apiKey s)]"

text \<open>
  The two loops over a successful answer: \<^verbatim>\<open>playlistIdMap[item.id] = ... ?? null\<close> for
  every item, then \<^verbatim>\<open>null\<close> for every id of the batch that is not \<^verbatim>\<open>in\<close> the map. The
  values of \<^verbatim>\<open>playlistIdMap\<close> are strings and \<^verbatim>\<open>null\<close>.
\<close>

definition kindOf :: "string option \<Rightarrow> assigned" where
  "kindOf v = (case v of None \<Rightarrow> Null | Some x \<Rightarrow> Primitive)"

definition recordItems ::
  "string option jsObject \<Rightarrow> channelItem apiData \<Rightarrow> string list \<Rightarrow> string option jsObject" where
  "recordItems playlistIdMap d batch =
     foldl (\<lambda>m cid. if hasProperty m cid then m else assign m cid None Null)
       (foldl (\<lambda>m item. assign m (item_id item) (uploads item) (kindOf (uploads item))) playlistIdMap
          (case items d of None \<Rightarrow> [] | Some xs \<Rightarrow> xs))
       batch"

text \<open>
  The body of \<^verbatim>\<open>for (let i = 0; i < needPlaylistId.length; i += 50)\<close> for the \<open>k\<close>-th
  chunk \<open>batch\<close>, on \<^verbatim>\<open>playlistIdMap\<close>, \<^verbatim>\<open>results\<close> and the calls made so far: one call
  of the fetcher, then either the two loops over the answer or, in the \<^verbatim>\<open>catch\<close>, an
  error entry for every id of the chunk.
\<close>

definition resolveBatch ::
  "env \<Rightarrow> settings \<Rightarrow> nat \<Rightarrow> string list \<Rightarrow>
   string option jsObject \<times> results \<times> call list \<Rightarrow>
   string option jsObject \<times> results \<times> call list" where
  "resolveBatch E s k batch acc =
     (case acc of (playlistIdMap, results, calls) \<Rightarrow>
        (let fetched = fetchJsonWithRetry (channelsAnswer E k) (channelsUrl s batch);
             calls' = calls @ [BatchCall batch (fst fetched)]
         in case snd fetched of
              Json d \<Rightarrow> (recordItems playlistIdMap d batch, results, calls')
            | Thrown e \<Rightarrow>
                (playlistIdMap,
                 foldl (\<lambda>r cid. assign r cid (errorResult s e) (Object errorKeys)) results batch,
                 calls')
            | Undefined \<Rightarrow>
                (playlistIdMap,
                 foldl (\<lambda>r cid. assign r cid (errorResult s undefinedData) (Object errorKeys)) results batch,
                 calls')))"

function resolvePlaylistIds ::
  "env \<Rightarrow> settings \<Rightarrow> string list \<Rightarrow> nat \<Rightarrow>
   string option jsObject \<times> results \<times> call list \<Rightarrow>
   string option jsObject \<times> results \<times> call list" where
  "resolvePlaylistIds E s needPlaylistId i acc =
     (if i < length needPlaylistId then
        resolvePlaylistIds E s needPlaylistId (i + 50)
          (resolveBatch E s (i div 50) (take 50 (drop i needPlaylistId)) acc)
      else acc)"
  by pat_completeness auto
termination
  by (relation "measure (\<lambda>(E, s, needPlaylistId, i, acc). length needPlaylistId - i)") auto

declare resolvePlaylistIds.simps [simp del]

subsection \<open>Step 3: the detail fetches\<close>

text \<open>
  The synchronous part of \<^verbatim>\<open>toFetch.map(...)\<close>: an id \<^verbatim>\<open>in results\<close> is skipped, an id
  with no playlist gets \<^verbatim>\<open>no_uploads\<close> at once, and every other id becomes a task handed
  to \<^verbatim>\<open>limit\<close>. No task has settled before the \<^verbatim>\<open>map\<close> is over.

  \<^verbatim>\<open>playlistIdMap[channelId]\<close> is read for an id that is not \<^verbatim>\<open>in results\<close>. Such an id
  is no inherited name of \<^verbatim>\<open>results\<close>, which inherits at least the properties of
  \<^verbatim>\<open>Object.prototype\<close>, while \<^verbatim>\<open>playlistIdMap\<close> inherits at most those. The value read
  is therefore that of the own property, or \<^verbatim>\<open>undefined\<close>.
\<close>

definition planDetail ::
  "settings \<Rightarrow> string option jsObject \<Rightarrow> results \<times> (string \<times> string) list \<Rightarrow>
   string \<times> string option \<Rightarrow> results \<times> (string \<times> string) list" where
  "planDetail s playlistIdMap acc c =
     (case acc of (results, tasks) \<Rightarrow>
      (case c of (channelId, cachedPlaylistId) \<Rightarrow>
        if hasProperty results channelId then (results, tasks)
        else
          (case (case cachedPlaylistId of
                   Some p \<Rightarrow> Some p
                 | None \<Rightarrow> (case own playlistIdMap channelId of None \<Rightarrow> None | Some v \<Rightarrow> v)) of
             None \<Rightarrow> (assign results channelId (noUploadsResult s) (Object noUploadsKeys), tasks)
           | Some playlistId \<Rightarrow>
               if playlistId = [] then
                 (assign results channelId (noUploadsResult s) (Object noUploadsKeys), tasks)
               else (results, tasks @ [(channelId, playlistId)]))))"

definition detailUrl :: "settings \<Rightarrow> string \<Rightarrow> url" where
  "detailUrl s playlistId =
     ytUrl ''playlistItems''
       [(''part'', ''contentDetails''), (''playlistId'', playlistId), (''maxResults'', ''1''),
        (''key'', apiKey s)]"

text \<open>
  \<^verbatim>\<open>data.items?.[0]\<close> and \<^verbatim>\<open>item?.contentDetails?.videoPublishedAt ?? null\<close>.
\<close>

definition extractLastUploadAt :: "playlistItem apiData \<Rightarrow> string option" where
  "extractLastUploadAt d =
     (case items d of
        None \<Rightarrow> None
      | Some [] \<Rightarrow> None
      | Some (item # _) \<Rightarrow> videoPublishedAt item)"

text \<open>
  The task of one channel, run to its end: the detail call, the result entry, the cache
  write. A rejection of the cache write is caught by the same \<^verbatim>\<open>catch\<close> as a failed
  call, after the entry of the successful call has been assigned to \<^verbatim>\<open>results\<close>, and
  assigns an error entry in its place.
\<close>

definition detailTask ::
  "env \<Rightarrow> settings \<Rightarrow> results \<times> storage \<times> call list \<Rightarrow> string \<times> string \<Rightarrow>
   results \<times> storage \<times> call list" where
  "detailTask E s acc task =
     (case acc of (results, store, calls) \<Rightarrow>
      (case task of (channelId, playlistId) \<Rightarrow>
        (let fetched = fetchJsonWithRetry (playlistItemsAnswer E channelId) (detailUrl s playlistId);
             calls' = calls @ [DetailCall channelId playlistId (fst fetched)]
         in case snd fetched of
              Json d \<Rightarrow>
                (let uploadAt = extractLastUploadAt d;
                     days = daysAgo E (DaysAgoFetched channelId) uploadAt;
                     results' = assign results channelId (timedResult s uploadAt days) (Object timedKeys)
                 in case storageSetError E channelId of
                      None \<Rightarrow>
                        (results',
                         store(cacheKey channelId \<mapsto>
                           \<lparr> uploadsPlaylistId = Some playlistId, lastUploadAt = uploadAt,
                             lastCheckedAt = now E (CacheWrite channelId) \<rparr>),
                         calls')
                    | Some m \<Rightarrow>
                        (assign results' channelId (errorResult s (plainError m)) (Object errorKeys),
                         store, calls'))
            | Thrown e \<Rightarrow> (assign results channelId (errorResult s e) (Object errorKeys), store, calls')
            | Undefined \<Rightarrow>
                (assign results channelId (errorResult s undefinedData) (Object errorKeys), store, calls'))))"

subsection \<open>The entry point\<close>

text \<open>
  \<^verbatim>\<open>fetchLastUploadDates(channelIds, settings, bypassCache)\<close> on the storage it finds.
  It returns \<^verbatim>\<open>results\<close>, of which the callers read the own properties
  (\<^verbatim>\<open>Object.keys\<close>, \<^verbatim>\<open>Object.values\<close>, the message sent back): these are the map given
  here; the storage the scan leaves and the calls it made are listed with it. Every task
  is an \<^verbatim>\<open>async\<close> function whose body is one \<^verbatim>\<open>try\<close> with a \<^verbatim>\<open>catch\<close>, so every task
  fulfils. \<open>None\<close>: the promise that the scan returns never settles.
\<close>

definition fetchLastUploadDates ::
  "env \<Rightarrow> storage \<Rightarrow> string list \<Rightarrow> settings \<Rightarrow> bool \<Rightarrow>
   ((string \<rightharpoonup> resultEntry) \<times> storage \<times> call list) option" where
  "fetchLastUploadDates E store channelIds s bypassCache =
     (case foldl (fromCache E s bypassCache store) (emptyObject, []) channelIds of
        (results, toFetch) \<Rightarrow>
          if toFetch = [] then Some (own results, store, [])
          else
            (let needPlaylistId = map fst (filter (\<lambda>c. \<not> truthy (snd c)) toFetch) in
             case resolvePlaylistIds E s needPlaylistId 0 (emptyObject, results, []) of
               (playlistIdMap, results2, calls) \<Rightarrow>
                 (case foldl (planDetail s playlistIdMap) (results2, []) toFetch of
                    (results3, tasks) \<Rightarrow>
                      (case settleAll (\<lambda>task. Fulfilled ())
                              (foldl limit (createLimiter (concurrency s)) tasks) of
                         None \<Rightarrow> None
                       | Some (order, limiter) \<Rightarrow>
                           (case foldl (detailTask E s) (results3, store, calls) order of
                              (results4, store', calls') \<Rightarrow> Some (own results4, store', calls'))))))"

subsection \<open>Notions used in the properties\<close>

text \<open>
  \<^verbatim>\<open>results\<close> is only ever assigned objects. It therefore keeps a prototype, inherits
  at least the properties of \<^verbatim>\<open>Object.prototype\<close>, and never has an own property
  \<^verbatim>\<open>__proto__\<close>.
\<close>

definition keeper :: "'v jsObject \<Rightarrow> bool" where
  "keeper obj = (own obj ''__proto__'' = None \<and> set objectPrototype \<subseteq> set (inherited obj))"

text \<open>
  The test of step 1 for one id, the entry built on a hit, and the playlist id passed on
  with a miss (\<^verbatim>\<open>entry?.uploadsPlaylistId ?? null\<close>).
\<close>

definition cacheHit :: "env \<Rightarrow> settings \<Rightarrow> bool \<Rightarrow> storage \<Rightarrow> string \<Rightarrow> bool" where
  "cacheHit E s bypassCache store channelId =
     (\<not> bypassCache \<and> isFresh E channelId (store (cacheKey channelId)) (cacheTtlHours s))"

definition cachedResult :: "env \<Rightarrow> settings \<Rightarrow> string \<Rightarrow> cacheEntry \<Rightarrow> resultEntry" where
  "cachedResult E s channelId e =
     timedResult s (lastUploadAt e) (daysAgo E (DaysAgoCached channelId) (lastUploadAt e))"

definition cachedPlaylistId :: "storage \<Rightarrow> string \<Rightarrow> string option" where
  "cachedPlaylistId store channelId =
     (case store (cacheKey channelId) of None \<Rightarrow> None | Some e \<Rightarrow> uploadsPlaylistId e)"

text \<open>The \<open>k\<close>-th chunk of \<^verbatim>\<open>needPlaylistId\<close> and what its batch call ends with.\<close>

definition chunk :: "string list \<Rightarrow> nat \<Rightarrow> string list" where
  "chunk needPlaylistId k = take 50 (drop (50 * k) needPlaylistId)"

definition batchOutcome :: "env \<Rightarrow> settings \<Rightarrow> string list \<Rightarrow> nat \<Rightarrow> channelItem apiData outcome" where
  "batchOutcome E s needPlaylistId k =
     snd (fetchJsonWithRetry (channelsAnswer E k) (channelsUrl s (chunk needPlaylistId k)))"

text \<open>What the detail call of a channel ends with, for the playlist it is made for.\<close>

definition detailOutcome :: "env \<Rightarrow> settings \<Rightarrow> string \<Rightarrow> string \<Rightarrow> playlistItem apiData outcome" where
  "detailOutcome E s channelId playlistId =
     snd (fetchJsonWithRetry (playlistItemsAnswer E channelId) (detailUrl s playlistId))"

text \<open>
  The batch stage in closed form: the number of chunks, the call made for chunk \<open>k\<close>,
  the error entries a failed call leaves among the own properties of \<^verbatim>\<open>results\<close>, and
  what a call does to \<^verbatim>\<open>playlistIdMap\<close>.
\<close>

definition nchunks :: "string list \<Rightarrow> nat" where
  "nchunks needPlaylistId = (length needPlaylistId + 49) div 50"

definition batchCall :: "env \<Rightarrow> settings \<Rightarrow> string list \<Rightarrow> nat \<Rightarrow> call" where
  "batchCall E s needPlaylistId k =
     BatchCall (chunk needPlaylistId k)
       (fst (fetchJsonWithRetry (channelsAnswer E k) (channelsUrl s (chunk needPlaylistId k))))"

definition markFailed ::
  "env \<Rightarrow> settings \<Rightarrow> string list \<Rightarrow> (string \<rightharpoonup> resultEntry) \<Rightarrow> nat \<Rightarrow> (string \<rightharpoonup> resultEntry)" where
  "markFailed E s needPlaylistId R k =
     (case thrownBy (batchOutcome E s needPlaylistId k) of
        None \<Rightarrow> R
      | Some e \<Rightarrow>
          (\<lambda>x. if x \<in> set (chunk needPlaylistId k) \<and> x \<noteq> ''__proto__''
               then Some (errorResult s e) else R x))"

definition recordChunk ::
  "env \<Rightarrow> settings \<Rightarrow> string list \<Rightarrow> string option jsObject \<Rightarrow> nat \<Rightarrow> string option jsObject" where
  "recordChunk E s needPlaylistId playlistIdMap k =
     (case batchOutcome E s needPlaylistId k of
        Json d \<Rightarrow> recordItems playlistIdMap d (chunk needPlaylistId k)
      | Thrown e \<Rightarrow> playlistIdMap
      | Undefined \<Rightarrow> playlistIdMap)"

text \<open>
  The playlist that the batch answers give for a channel: the items of the answers of the
  calls that succeeded, in the order of the calls, and among them the
  \<^verbatim>\<open>contentDetails?.relatedPlaylists?.uploads\<close> of the last item with the id of the
  channel; \<open>None\<close> when there is no such item or it has no playlist.
\<close>

definition answeredItems :: "env \<Rightarrow> settings \<Rightarrow> string list \<Rightarrow> nat \<Rightarrow> channelItem list" where
  "answeredItems E s needPlaylistId k =
     (case batchOutcome E s needPlaylistId k of
        Json d \<Rightarrow> (case items d of None \<Rightarrow> [] | Some xs \<Rightarrow> xs)
      | Thrown e \<Rightarrow> []
      | Undefined \<Rightarrow> [])"

definition handleIn :: "channelItem list \<Rightarrow> string \<Rightarrow> string option \<Rightarrow> string option" where
  "handleIn xs channelId h =
     (case filter (\<lambda>item. item_id item = channelId) xs of
        [] \<Rightarrow> h
      | y # ys \<Rightarrow> uploads (last (y # ys)))"

definition resolvedHandle :: "env \<Rightarrow> settings \<Rightarrow> string list \<Rightarrow> string \<Rightarrow> string option" where
  "resolvedHandle E s needPlaylistId channelId =
     handleIn (concat (map (answeredItems E s needPlaylistId) [0..<nchunks needPlaylistId]))
       channelId None"

text \<open>
  The detail stage in closed form. The playlist the code settles on for an entry of
  \<^verbatim>\<open>toFetch\<close> (\<^verbatim>\<open>cachedPlaylistId ?? playlistIdMap[channelId]\<close>), the task made of an
  id, the own properties of \<^verbatim>\<open>results\<close> and the tasks that the synchronous part of step 3
  leaves when \<^verbatim>\<open>results\<close> inherits the names \<open>I\<close>, and what the task of a channel writes
  to \<^verbatim>\<open>results\<close> and to the storage and adds to the calls.
\<close>

definition plannedPlaylist :: "string option jsObject \<Rightarrow> string \<times> string option \<Rightarrow> string option" where
  "plannedPlaylist playlistIdMap c =
     (case snd c of
        Some p \<Rightarrow> Some p
      | None \<Rightarrow> (case own playlistIdMap (fst c) of None \<Rightarrow> None | Some v \<Rightarrow> v))"

definition taskOf :: "string option jsObject \<Rightarrow> storage \<Rightarrow> string \<Rightarrow> string \<times> string" where
  "taskOf playlistIdMap store c =
     (c, case plannedPlaylist playlistIdMap (c, cachedPlaylistId store c) of None \<Rightarrow> [] | Some p \<Rightarrow> p)"

definition planResults ::
  "settings \<Rightarrow> (string \<Rightarrow> bool) \<Rightarrow> string list \<Rightarrow> (string \<rightharpoonup> resultEntry) \<Rightarrow> string list \<Rightarrow>
   (string \<rightharpoonup> resultEntry)" where
  "planResults s plan I R xs =
     (\<lambda>x. if R x \<noteq> None then R x
          else if x \<in> set xs \<and> x \<notin> set I \<and> \<not> plan x then Some (noUploadsResult s) else None)"

definition planTasks ::
  "(string \<Rightarrow> bool) \<Rightarrow> string list \<Rightarrow> (string \<rightharpoonup> resultEntry) \<Rightarrow> string list \<Rightarrow> string list" where
  "planTasks plan I R xs = filter (\<lambda>x. R x = None \<and> x \<notin> set I \<and> plan x) xs"

definition detailResult :: "env \<Rightarrow> settings \<Rightarrow> string \<Rightarrow> string \<Rightarrow> resultEntry" where
  "detailResult E s channelId playlistId =
     (case detailOutcome E s channelId playlistId of
        Json d \<Rightarrow>
          (case storageSetError E channelId of
             None \<Rightarrow> timedResult s (extractLastUploadAt d)
                       (daysAgo E (DaysAgoFetched channelId) (extractLastUploadAt d))
           | Some m \<Rightarrow> errorResult s (plainError m))
      | Thrown e \<Rightarrow> errorResult s e
      | Undefined \<Rightarrow> errorResult s undefinedData)"

definition detailWrite :: "env \<Rightarrow> settings \<Rightarrow> string \<Rightarrow> string \<Rightarrow> cacheEntry option" where
  "detailWrite E s channelId playlistId =
     (case detailOutcome E s channelId playlistId of
        Json d \<Rightarrow>
          (case storageSetError E channelId of
             None \<Rightarrow> Some \<lparr> uploadsPlaylistId = Some playlistId, lastUploadAt = extractLastUploadAt d,
                            lastCheckedAt = now E (CacheWrite channelId) \<rparr>
           | Some m \<Rightarrow> None)
      | Thrown e \<Rightarrow> None
      | Undefined \<Rightarrow> None)"

definition detailCall :: "env \<Rightarrow> settings \<Rightarrow> string \<times> string \<Rightarrow> call" where
  "detailCall E s t =
     DetailCall (fst t) (snd t)
       (fst (fetchJsonWithRetry (playlistItemsAnswer E (fst t)) (detailUrl s (snd t))))"

text \<open>
  What step 1 leaves: the own properties of \<^verbatim>\<open>results\<close>, which are the entries of the ids
  served from the cache, and \<^verbatim>\<open>toFetch\<close>.
\<close>

definition hits :: "env \<Rightarrow> settings \<Rightarrow> bool \<Rightarrow> storage \<Rightarrow> string list \<Rightarrow> (string \<rightharpoonup> resultEntry)" where
  "hits E s b store ids =
     (\<lambda>c. if c \<in> set ids \<and> c \<noteq> ''__proto__'' \<and> cacheHit E s b store c
          then map_option (cachedResult E s c) (store (cacheKey c)) else None)"

definition misses :: "env \<Rightarrow> settings \<Rightarrow> bool \<Rightarrow> storage \<Rightarrow> string list \<Rightarrow> (string \<times> string option) list" where
  "misses E s b store ids =
     map (\<lambda>c. (c, cachedPlaylistId store c)) (filter (\<lambda>c. \<not> cacheHit E s b store c) ids)"

text \<open>
  The ids of \<^verbatim>\<open>toFetch\<close>, those of \<^verbatim>\<open>needPlaylistId\<close>, and whether step 3 finds a
  playlist for an id.
\<close>

definition missIds :: "env \<Rightarrow> settings \<Rightarrow> bool \<Rightarrow> storage \<Rightarrow> string list \<Rightarrow> string list" where
  "missIds E s b store ids = filter (\<lambda>c. \<not> cacheHit E s b store c) ids"

definition needIds :: "env \<Rightarrow> settings \<Rightarrow> bool \<Rightarrow> storage \<Rightarrow> string list \<Rightarrow> string list" where
  "needIds E s b store ids =
     filter (\<lambda>c. \<not> truthy (cachedPlaylistId store c)) (missIds E s b store ids)"

definition planned :: "string option jsObject \<Rightarrow> storage \<Rightarrow> string \<Rightarrow> bool" where
  "planned playlistIdMap store c = truthy (plannedPlaylist playlistIdMap (c, cachedPlaylistId store c))"


text \<open>The batch calls among the calls of a scan, in the order of the calls.\<close>

fun batchCalls :: "call list \<Rightarrow> call list" where
  "batchCalls [] = []"
| "batchCalls (BatchCall batch evs # calls) = BatchCall batch evs # batchCalls calls"
| "batchCalls (DetailCall channelId playlistId evs # calls) = batchCalls calls"

subsection \<open>Examples\<close>

text \<open>
  Settings with the defaults, answers of the API, and an environment in which the clock
  stands at 1700000000000, every batch call resolves channel \<^verbatim>\<open>UCa\<close> to the playlist
  \<^verbatim>\<open>UUa\<close> and every detail call finds one video, published exactly ten days before.
\<close>

definition exampleSettings :: settings where
  "exampleSettings = \<lparr> apiKey = ''KEY'', cacheTtlHours = 24, concurrency = 6, thresholdDays = 365 \<rparr>"

definition answer200 :: "'a \<Rightarrow> 'a fetched" where
  "answer200 d = Resolved \<lparr> status = 200, json = Inr d, apiMsg = None \<rparr>"

definition answerFailed :: "nat \<Rightarrow> string \<Rightarrow> 'a fetched" where
  "answerFailed code m = Resolved \<lparr> status = code, json = Inl [], apiMsg = Some m \<rparr>"

definition exampleEnv :: env where
  "exampleEnv =
     \<lparr> now = (\<lambda>_. 1700000000000),
       getTime = (\<lambda>d. if d = ''2023-11-04T22:13:20Z'' then Some 1699136000000 else None),
       channelsAnswer = (\<lambda>k a. answer200 \<lparr> items = Some [\<lparr> item_id = ''UCa'', uploads = Some ''UUa'' \<rparr>] \<rparr>),
       playlistItemsAnswer = (\<lambda>c a. answer200
          \<lparr> items = Some [\<lparr> videoPublishedAt = Some ''2023-11-04T22:13:20Z'', publishedAt = None \<rparr>] \<rparr>),
       storageSetError = (\<lambda>_. None) \<rparr>"

text \<open>
  The same environment with every detail call answered by a server error, and a storage
  whose entry for \<^verbatim>\<open>UCa\<close> is stale but holds the playlist id.
\<close>

definition failingDetailEnv :: env where
  "failingDetailEnv = exampleEnv\<lparr> playlistItemsAnswer := (\<lambda>c a. answerFailed 500 ''backend error'') \<rparr>"

definition staleStore :: storage where
  "staleStore =
     [cacheKey ''UCa'' \<mapsto> \<lparr> uploadsPlaylistId = Some ''UUa'',
        lastUploadAt = Some ''2020-01-01T00:00:00Z'', lastCheckedAt = 1600000000000 \<rparr>]"

text \<open>
  A list of 120 ids, \<^verbatim>\<open>UC\<close> followed by 0 to 119 letters \<^verbatim>\<open>x\<close>, and the example
  environment with the batch call of the second chunk answered by a server error and the
  other batch calls by one item, which resolves the id with seven letters \<^verbatim>\<open>x\<close> (of the
  first chunk) to the playlist \<^verbatim>\<open>UU7\<close>.
\<close>

definition manyIds :: "string list" where
  "manyIds = map (\<lambda>n. ''UC'' @ replicate n (CHR ''x'')) [0..<120]"

definition secondChunkFailsEnv :: env where
  "secondChunkFailsEnv =
     exampleEnv\<lparr> channelsAnswer :=
       (\<lambda>k a. if k = 1 then answerFailed 500 ''backend error''
              else answer200 \<lparr> items = Some [\<lparr> item_id = ''UCxxxxxxx'', uploads = Some ''UU7'' \<rparr>] \<rparr>) \<rparr>"





text \<open>
  A limiter of capacity 2 with three tasks submitted, of which task 1 fails, in the state
  where task 1 has failed and its \<^verbatim>\<open>finally\<close> callback has not run yet.
\<close>

definition exampleRun :: "nat \<Rightarrow> unit settlement" where
  "exampleRun fn = (if fn = 1 then Failed (plainError ''failed'') else Fulfilled ())"

definition exampleLimiter :: "(nat, unit) limiter" where
  "exampleLimiter = settle (limit (limit (limit (createLimiter 2) 1) 2) 3) (1, 0) (exampleRun 1)"

section \<open>Properties of the retrying fetcher\<close>

lemma fetchJsonWithRetry_from_simps:
  "attempt \<le> maxRetries \<Longrightarrow> net attempt = Rejected m \<Longrightarrow>
     fetchJsonWithRetry_from net u maxRetries attempt delay = ([Fetch u], Thrown (plainError m))"
  "attempt \<le> maxRetries \<Longrightarrow> net attempt = Resolved r \<Longrightarrow> ok r \<Longrightarrow>
     fetchJsonWithRetry_from net u maxRetries attempt delay =
       ([Fetch u], case json r of Inl m \<Rightarrow> Thrown (plainError m) | Inr d \<Rightarrow> Json d)"
  "attempt < maxRetries \<Longrightarrow> net attempt = Resolved r \<Longrightarrow> \<not> ok r \<Longrightarrow>
     status r = 403 \<or> status r = 429 \<Longrightarrow>
     fetchJsonWithRetry_from net u maxRetries attempt delay =
       (Fetch u # Sleep delay # fst (fetchJsonWithRetry_from net u maxRetries (attempt + 1) (delay * 2)),
        snd (fetchJsonWithRetry_from net u maxRetries (attempt + 1) (delay * 2)))"
  "attempt \<le> maxRetries \<Longrightarrow> net attempt = Resolved r \<Longrightarrow> \<not> ok r \<Longrightarrow>
     \<not> ((status r = 403 \<or> status r = 429) \<and> attempt < maxRetries) \<Longrightarrow>
     fetchJsonWithRetry_from net u maxRetries attempt delay = ([Fetch u], Thrown (httpError r))"
  by (subst fetchJsonWithRetry_from.simps, simp split: prod.splits)+

lemma includes_str_sublist: "includes_str s t \<longleftrightarrow> sublist t s"
  by (induction s) (auto simp: sublist_Cons_right)

lemma retry_step:
  assumes "rateLimited (net a)" "a < maxRetries"
  shows "fetchJsonWithRetry_from net u maxRetries a d =
           (Fetch u # Sleep d # fst (fetchJsonWithRetry_from net u maxRetries (a + 1) (d * 2)),
            snd (fetchJsonWithRetry_from net u maxRetries (a + 1) (d * 2)))"
proof -
  from assms(1) obtain r where r: "net a = Resolved r" "status r = 403 \<or> status r = 429"
    by (auto simp: rateLimited_def split: fetched.splits)
  then have "\<not> ok r" by (auto simp: ok_def)
  with r assms(2) show ?thesis by (simp add: fetchJsonWithRetry_from_simps(3))
qed

lemma final_step:
  assumes "a \<le> maxRetries" "a = maxRetries \<or> \<not> rateLimited (net a)"
  shows "fetchJsonWithRetry_from net u maxRetries a d =
           ([Fetch u],
            case net a of
              Rejected m \<Rightarrow> Thrown (plainError m)
            | Resolved r \<Rightarrow>
                if ok r then (case json r of Inl m \<Rightarrow> Thrown (plainError m) | Inr x \<Rightarrow> Json x)
                else Thrown (httpError r))"
  using assms
  by (subst fetchJsonWithRetry_from.simps) (auto simp: rateLimited_def split: fetched.splits)

lemma from_shape:
  assumes "a + k \<le> maxRetries" "\<forall>j<k. rateLimited (net (a + j))"
    "a + k = maxRetries \<or> \<not> rateLimited (net (a + k))"
  shows "fetchJsonWithRetry_from net u maxRetries a d =
           (concat (map (\<lambda>j. [Fetch u, Sleep (d * 2 ^ j)]) [0..<k]) @ [Fetch u],
            finalOutcome (net (a + k)))"
  using assms
proof (induction k arbitrary: a d)
  case 0
  then show ?case by (simp add: final_step finalOutcome_def)
next
  case (Suc k)
  from Suc.prems(2) have r: "rateLimited (net a)" by force
  from Suc.prems(1) have lt: "a < maxRetries" by simp
  have "\<forall>j<k. rateLimited (net (a + 1 + j))"
  proof (intro allI impI)
    fix j assume "j < k"
    then have "Suc j < Suc k" by simp
    with Suc.prems(2) have "rateLimited (net (a + Suc j))" by blast
    then show "rateLimited (net (a + 1 + j))" by simp
  qed
  with Suc.prems have ih: "fetchJsonWithRetry_from net u maxRetries (a + 1) (d * 2) =
           (concat (map (\<lambda>j. [Fetch u, Sleep (d * 2 * 2 ^ j)]) [0..<k]) @ [Fetch u],
            finalOutcome (net (a + 1 + k)))"
    by (intro Suc.IH) auto
  have "concat (map (\<lambda>j. [Fetch u, Sleep (d * 2 ^ j)]) [0..<Suc k]) =
        Fetch u # Sleep d # concat (map (\<lambda>j. [Fetch u, Sleep (d * 2 * 2 ^ j)]) [0..<k])"
    by (simp only: upt_conv_Cons[of 0 "Suc k"] map_Suc_upt[symmetric])
       (simp add: comp_def mult.assoc)
  with ih retry_step[of net a maxRetries u d] r lt show ?case by simp
qed

lemma fetch_shape:
  assumes "k \<le> 3" "\<forall>a<k. rateLimited (net a)" "k = 3 \<or> \<not> rateLimited (net k)"
  shows "fetchJsonWithRetry net u =
           (concat (map (\<lambda>a. [Fetch u, Sleep (1000 * 2 ^ a)]) [0..<k]) @ [Fetch u], finalOutcome (net k))"
  unfolding fetchJsonWithRetry_def using assms from_shape[of 0 k 3 net u 1000] by simp

lemma retries_exist:
  fixes net :: "nat \<Rightarrow> 'a fetched"
  shows "\<exists>k\<le>3. (\<forall>a<k. rateLimited (net a)) \<and> (k = 3 \<or> \<not> rateLimited (net k))"
proof (cases "\<forall>a<3. rateLimited (net a)")
  case True
  then show ?thesis by (intro exI[of _ 3]) simp
next
  case False
  then have ex: "\<exists>a. \<not> rateLimited (net a)" by blast
  define k where "k = (LEAST a. \<not> rateLimited (net a))"
  have nk: "\<not> rateLimited (net k)" unfolding k_def using ex by (rule LeastI_ex)
  have below: "\<forall>a<k. rateLimited (net a)"
    unfolding k_def using not_less_Least by blast
  from False obtain a where "a < 3" "\<not> rateLimited (net a)" by blast
  then have "k \<le> a" unfolding k_def by (intro Least_le)
  with \<open>a < 3\<close> have "k \<le> 3" by simp
  with nk below show ?thesis by blast
qed

lemma finalOutcome_defined: "finalOutcome f \<noteq> Undefined"
  by (simp add: finalOutcome_def split: fetched.splits sum.splits)

lemma fetchJsonWithRetry_defined: "snd (fetchJsonWithRetry net u) \<noteq> Undefined"
proof -
  obtain k where "k \<le> 3" "\<forall>a<k. rateLimited (net a)" "k = 3 \<or> \<not> rateLimited (net k)"
    using retries_exist by blast
  from fetch_shape[OF this, of u] show ?thesis by (simp add: finalOutcome_defined)
qed

lemma fetch_first_answer:
  "\<not> rateLimited (net 0) \<Longrightarrow> snd (fetchJsonWithRetry net u) = finalOutcome (net 0)"
  using fetch_shape[of 0 net u] by simp

lemma snd_fetch_from_url:
  "snd (fetchJsonWithRetry_from net u m a d) = snd (fetchJsonWithRetry_from net u' m a d')"
proof (induction net u m a d arbitrary: d' rule: fetchJsonWithRetry_from.induct)
  case (1 net u m a d)
  have ih: "\<And>r. a \<le> m \<Longrightarrow> net a = Resolved r \<Longrightarrow> \<not> ok r \<Longrightarrow>
      (status r = 403 \<or> status r = 429) \<and> a < m \<Longrightarrow>
      snd (fetchJsonWithRetry_from net u m (Suc a) (d * 2)) =
      snd (fetchJsonWithRetry_from net u' m (Suc a) (d' * 2))"
    using "1.IH"[of _ "d' * 2"] by simp
  show ?case
    by (subst fetchJsonWithRetry_from.simps, subst (2) fetchJsonWithRetry_from.simps)
       (auto simp: case_prod_beta intro: ih split: fetched.splits)
qed

text \<open>
  C3. A retry happens only after an answer of status 403 or 429. The call makes \<open>k \<le> 3\<close>
  retries, one after each of the first \<open>k\<close> answers, all rate limited, and sleeps before
  the \<open>a\<close>-th retry for 1000 times \<open>2 ^ a\<close> milliseconds: 1000, 2000, 4000. It makes
  \<open>k + 1 \<le> 4\<close> fetches, and stops before the third retry only on an answer that is not
  rate limited. Three rate-limited answers followed by a success give exactly the sleeps
  1000, 2000, 4000 and then the parsed body.
\<close>

theorem fetchJsonWithRetry_backoff:
  "(\<exists>k\<le>3.
      fst (fetchJsonWithRetry net u) =
        concat (map (\<lambda>a. [Fetch u, Sleep (1000 * 2 ^ a)]) [0..<k]) @ [Fetch u]
      \<and> (\<forall>a<k. rateLimited (net a))
      \<and> (k < 3 \<longrightarrow> \<not> rateLimited (net k)))
   \<and> (rateLimited (net 0) \<and> rateLimited (net 1) \<and> rateLimited (net 2)
        \<and> net 3 = Resolved r \<and> ok r \<and> json r = Inr d \<longrightarrow>
      fetchJsonWithRetry net u =
        ([Fetch u, Sleep 1000, Fetch u, Sleep 2000, Fetch u, Sleep 4000, Fetch u], Json d))"
proof
  obtain k where k: "k \<le> 3" "\<forall>a<k. rateLimited (net a)" "k = 3 \<or> \<not> rateLimited (net k)"
    using retries_exist by blast
  show "\<exists>k\<le>3.
      fst (fetchJsonWithRetry net u) =
        concat (map (\<lambda>a. [Fetch u, Sleep (1000 * 2 ^ a)]) [0..<k]) @ [Fetch u]
      \<and> (\<forall>a<k. rateLimited (net a))
      \<and> (k < 3 \<longrightarrow> \<not> rateLimited (net k))"
    using k fetch_shape[OF k, of u] by (intro exI[of _ k]) auto
next
  show "rateLimited (net 0) \<and> rateLimited (net 1) \<and> rateLimited (net 2)
        \<and> net 3 = Resolved r \<and> ok r \<and> json r = Inr d \<longrightarrow>
      fetchJsonWithRetry net u =
        ([Fetch u, Sleep 1000, Fetch u, Sleep 2000, Fetch u, Sleep 4000, Fetch u], Json d)"
  proof
    assume h: "rateLimited (net 0) \<and> rateLimited (net 1) \<and> rateLimited (net 2)
        \<and> net 3 = Resolved r \<and> ok r \<and> json r = Inr d"
    have "\<forall>a<3. rateLimited (net a)"
    proof (intro allI impI)
      fix a :: nat assume "a < 3"
      then have "a = 0 \<or> a = 1 \<or> a = 2" by arith
      with h show "rateLimited (net a)" by auto
    qed
    from fetch_shape[of 3 net u] this h show "fetchJsonWithRetry net u =
        ([Fetch u, Sleep 1000, Fetch u, Sleep 2000, Fetch u, Sleep 4000, Fetch u], Json d)"
      by (simp add: finalOutcome_def upt_rec numeral_3_eq_3)
  qed
qed

theorem fetchJsonWithRetry_backoff_witness:
  "fetchJsonWithRetry
     (\<lambda>a. if a < 3 then Resolved \<lparr> status = 429, json = Inl [], apiMsg = None \<rparr>
          else Resolved \<lparr> status = 200, json = Inr (7::nat), apiMsg = None \<rparr>)
     (Url ''channels'' []) =
   ([Fetch (Url ''channels'' []), Sleep 1000, Fetch (Url ''channels'' []), Sleep 2000,
     Fetch (Url ''channels'' []), Sleep 4000, Fetch (Url ''channels'' [])], Json 7)"
  using fetchJsonWithRetry_backoff
    [of "\<lambda>a. if a < 3 then Resolved \<lparr> status = 429, json = Inl [], apiMsg = None \<rparr>
          else Resolved \<lparr> status = 200, json = Inr (7::nat), apiMsg = None \<rparr>"
        "Url ''channels'' []" "\<lparr> status = 200, json = Inr (7::nat), apiMsg = None \<rparr>" 7]
  by (simp add: rateLimited_def ok_def)

text \<open>
  C4. When the call ends on a failed answer \<open>r\<close> (one that is not retried: its status is
  neither 403 nor 429, or it is the fourth answer), it throws an error that carries the
  status of \<open>r\<close> and the message the server sent (\<^verbatim>\<open>HTTP_<status>\<close> when there is none),
  and that the callers classify as \<^verbatim>\<open>quota_exceeded\<close> exactly when the status is 403 and
  the message, in lower case, contains \<^verbatim>\<open>quota\<close>, and as \<^verbatim>\<open>api_error\<close> otherwise.
\<close>

theorem fetchJsonWithRetry_classifies:
  assumes "k \<le> 3" "\<forall>a<k. rateLimited (net a)" "net k = Resolved r" "\<not> ok r"
    "k = 3 \<or> \<not> (status r = 403 \<or> status r = 429)"
  shows "\<exists>e. snd (fetchJsonWithRetry net u) = Thrown e
           \<and> errStatus e = Some (status r)
           \<and> message e = (case apiMsg r of
                             None \<Rightarrow> ''HTTP_'' @ showNat (status r)
                           | Some m \<Rightarrow> if m = [] then ''HTTP_'' @ showNat (status r) else m)
           \<and> (statusOfError e = QuotaExceeded \<longleftrightarrow>
                status r = 403 \<and> (\<exists>m. apiMsg r = Some m \<and> sublist ''quota'' (toLowerCase m)))
           \<and> (statusOfError e = ApiError \<longleftrightarrow>
                \<not> (status r = 403 \<and> (\<exists>m. apiMsg r = Some m \<and> sublist ''quota'' (toLowerCase m))))"
proof -
  from assms(3,5) have "k = 3 \<or> \<not> rateLimited (net k)" by (auto simp: rateLimited_def)
  from fetch_shape[OF assms(1,2) this, of u] assms(3,4)
  have "snd (fetchJsonWithRetry net u) = Thrown (httpError r)" by (simp add: finalOutcome_def)
  then show ?thesis
    by (auto simp: httpError_def statusOfError_def includes_str_sublist split: option.splits)
qed

theorem fetchJsonWithRetry_classifies_witness:
  "\<exists>e. snd (fetchJsonWithRetry
              (\<lambda>a. Resolved \<lparr> status = 403, json = Inl [],
                               apiMsg = Some ''Daily Quota exceeded'' \<rparr> :: nat fetched)
              (Url ''channels'' [])) = Thrown e
      \<and> errStatus e = Some 403 \<and> message e = ''Daily Quota exceeded''
      \<and> statusOfError e = QuotaExceeded"
proof -
  let ?r = "\<lparr> status = 403, json = Inl [], apiMsg = Some ''Daily Quota exceeded'' \<rparr> :: nat response"
  have q: "sublist ''quota'' (toLowerCase ''Daily Quota exceeded'')"
    unfolding includes_str_sublist[symmetric] by code_simp
  have "\<forall>a<3. rateLimited ((\<lambda>a. Resolved ?r) a)" by (simp add: rateLimited_def)
  from fetchJsonWithRetry_classifies[of 3 "\<lambda>a. Resolved ?r" ?r "Url ''channels'' []", OF _ this] q
  show ?thesis by (auto simp: ok_def)
qed

section \<open>Properties of the limiter\<close>

lemma next_task_fields:
  "l_concurrency (next_task L) = l_concurrency L"
  "submitted (next_task L) = submitted L"
  "promises (next_task L) = promises L"
  "finishing (next_task L) = finishing L"
  "started (next_task L) @ queue (next_task L) = started L @ queue L"
  "running (next_task L) @ queue (next_task L) = running L @ queue L"
  by (auto simp: next_task_def split: list.splits)

lemma next_task_tidy:
  assumes "active L = int (length (running L) + length (finishing L))"
    "queue L = [] \<or> l_concurrency L \<le> active L + 1"
  shows "tidy (next_task L)"
  using assms by (cases "queue L") (auto simp: tidy_def next_task_def)

lemma next_task_bound:
  assumes "active L \<le> max 0 (l_concurrency L)"
  shows "active (next_task L) \<le> max 0 (l_concurrency L)"
  using assms by (auto simp: next_task_def split: list.splits)

lemma length_remove1_int:
  assumes "x \<in> set xs"
  shows "int (length (remove1 x xs)) = int (length xs) - 1"
proof -
  from assms have "length xs = Suc (length (remove1 x xs))" by (induction xs) auto
  then show ?thesis by simp
qed

lemma limit_tidy:
  assumes "tidy L"
  shows "tidy (limit L fn)"
  using assms by (cases "queue L") (auto simp: tidy_def limit_def next_task_def)

lemma settle_tidy:
  assumes "tidy L" "e \<in> set (running L)"
  shows "tidy (settle L e out)"
  using assms length_remove1_int[OF assms(2)] by (auto simp: tidy_def settle_def)

lemma release_tidy:
  assumes "tidy L" "e \<in> set (finishing L)"
  shows "tidy (release L e)"
proof -
  let ?L = "L\<lparr>active := active L - 1, finishing := remove1 e (finishing L)\<rparr>"
  from assms length_remove1_int[OF assms(2)]
  have "active ?L = int (length (running ?L) + length (finishing ?L))"
    and "queue ?L = [] \<or> l_concurrency ?L \<le> active ?L + 1"
    by (auto simp: tidy_def)
  then show ?thesis unfolding release_def by (rule next_task_tidy)
qed

lemma reachable_tidy:
  assumes "reachable run c L"
  shows "tidy L \<and> l_concurrency L = c \<and> active L \<le> max 0 c"
  using assms
proof (induction rule: reachable.induct)
  case created
  show ?case by (simp add: createLimiter_def tidy_def)
next
  case (limited L fn)
  let ?L = "L\<lparr>queue := queue L @ [(fn, length (submitted L))],
               submitted := submitted L @ [(fn, length (submitted L))]\<rparr>"
  from limited.IH have "active ?L \<le> max 0 (l_concurrency ?L)" by simp
  from next_task_bound[OF this] limited.IH limit_tidy[of L fn] show ?case
    by (simp add: limit_def next_task_fields)
next
  case (settled L e)
  from settled.IH settle_tidy[OF _ settled.hyps(2)] show ?case by (simp add: settle_def)
next
  case (released L e)
  let ?L = "L\<lparr>active := active L - 1, finishing := remove1 e (finishing L)\<rparr>"
  from released.IH have "active ?L \<le> max 0 (l_concurrency ?L)" by simp
  from next_task_bound[OF this] released.IH release_tidy[OF _ released.hyps(2)] show ?case
    by (simp add: release_def next_task_fields)
qed

lemma next_task_ordered:
  assumes "submitted L = started L @ queue L" "map snd (submitted L) = [0..<length (submitted L)]"
    "distinct (running L @ finishing L)" "set (running L @ finishing L) \<subseteq> set (started L)"
  shows "ordered (next_task L)"
proof (cases "queue L")
  case Nil
  with assms show ?thesis by (simp add: ordered_def next_task_def)
next
  case (Cons e rest)
  from assms(2) have "distinct (map snd (submitted L))" by simp
  then have "distinct (submitted L)" by (simp add: distinct_map)
  with assms(1) Cons have "e \<notin> set (started L)" by auto
  with assms(4) have "e \<notin> set (running L @ finishing L)" by blast
  with assms Cons show ?thesis by (auto simp: ordered_def next_task_def)
qed

lemma reachable_ordered:
  assumes "reachable run c L"
  shows "ordered L"
  using assms
proof (induction rule: reachable.induct)
  case created
  show ?case by (simp add: createLimiter_def ordered_def)
next
  case (limited L fn)
  then show ?case unfolding limit_def by (intro next_task_ordered) (auto simp: ordered_def)
next
  case (settled L e)
  then show ?case by (auto simp: ordered_def settle_def)
next
  case (released L e)
  then show ?case unfolding release_def
    by (intro next_task_ordered) (auto simp: ordered_def)
qed


lemma orderedD:
  assumes "ordered L"
  shows "submitted L = started L @ queue L" "map snd (submitted L) = [0..<length (submitted L)]"
    "distinct (running L @ finishing L)" "set (running L @ finishing L) \<subseteq> set (started L)"
  using assms unfolding ordered_def by blast+

lemma next_task_waiting:
  "set (queue (next_task L)) \<union> set (running (next_task L)) = set (queue L) \<union> set (running L)"
  by (auto simp: next_task_def split: list.splits)

lemma next_task_delivers:
  assumes "delivers run L"
  shows "delivers run (next_task L)"
  using assms unfolding delivers_def next_task_fields next_task_waiting .

lemma snd_submitted:
  assumes "map snd (submitted L) = [0..<length (submitted L)]" "e \<in> set (submitted L)"
  shows "snd e < length (submitted L)"
proof -
  from assms(2) have "snd e \<in> set (map snd (submitted L))" by simp
  then show ?thesis unfolding assms(1) by simp
qed

lemma limit_delivers:
  assumes d: "delivers run L" and o: "ordered L"
  shows "delivers run (limit L fn)"
proof -
  let ?n = "length (submitted L)"
  let ?L = "L\<lparr>queue := queue L @ [(fn, ?n)], submitted := submitted L @ [(fn, ?n)]\<rparr>"
  note num = orderedD(2)[OF o]
  have "delivers run ?L"
    unfolding delivers_def
  proof (intro conjI ballI allI impI)
    fix e assume e: "e \<in> set (submitted ?L)"
    show "promises ?L (snd e) =
        (if e \<in> set (queue ?L) \<union> set (running ?L) then None else Some (run (fst e)))"
    proof (cases "e = (fn, ?n)")
      case True
      with d show ?thesis by (simp add: delivers_def)
    next
      case False
      with e have "e \<in> set (submitted L)" by simp
      with d False show ?thesis by (simp add: delivers_def)
    qed
  next
    fix p assume "length (submitted ?L) \<le> p"
    with d show "promises ?L p = None" by (simp add: delivers_def)
  qed
  then show ?thesis unfolding limit_def by (rule next_task_delivers)
qed

lemma settle_delivers:
  assumes d: "delivers run L" and o: "ordered L" and e: "e \<in> set (running L)"
  shows "delivers run (settle L e (run (fst e)))"
proof -
  note sub = orderedD(1)[OF o] and num = orderedD(2)[OF o] and dis = orderedD(3)[OF o]
    and run = orderedD(4)[OF o]
  from num have "distinct (map snd (submitted L))" by simp
  then have inj: "inj_on snd (set (submitted L))" and ds: "distinct (submitted L)"
    by (simp_all add: distinct_map)
  from e run sub have es: "e \<in> set (submitted L)" and est: "e \<in> set (started L)" by auto
  with ds sub have eq: "e \<notin> set (queue L)" by auto
  from d es e have pending: "promises L (snd e) = None" by (simp add: delivers_def)
  from dis have dr: "distinct (running L)" by simp
  show ?thesis
    unfolding delivers_def
  proof (intro conjI ballI allI impI)
    fix x assume x: "x \<in> set (submitted (settle L e (run (fst e))))"
    then have xs: "x \<in> set (submitted L)" by (simp add: settle_def)
    show "promises (settle L e (run (fst e))) (snd x) =
        (if x \<in> set (queue (settle L e (run (fst e)))) \<union> set (running (settle L e (run (fst e))))
         then None else Some (run (fst x)))"
    proof (cases "x = e")
      case True
      with pending eq dr show ?thesis by (simp add: settle_def)
    next
      case False
      with inj xs es have "snd x \<noteq> snd e" by (auto dest: inj_onD)
      with d xs False pending show ?thesis by (simp add: settle_def delivers_def)
    qed
  next
    fix p assume "length (submitted (settle L e (run (fst e)))) \<le> p"
    then have p: "length (submitted L) \<le> p" by (simp add: settle_def)
    with snd_submitted[OF num es] have "p \<noteq> snd e" by simp
    with d p pending show "promises (settle L e (run (fst e))) p = None"
      by (simp add: settle_def delivers_def)
  qed
qed

lemma release_delivers:
  assumes "delivers run L"
  shows "delivers run (release L e)"
proof -
  from assms have "delivers run (L\<lparr>active := active L - 1, finishing := remove1 e (finishing L)\<rparr>)"
    by (simp add: delivers_def)
  then show ?thesis unfolding release_def by (rule next_task_delivers)
qed

lemma reachable_delivers:
  assumes "reachable run c L"
  shows "delivers run L"
  using assms
proof (induction rule: reachable.induct)
  case created
  show ?case by (simp add: createLimiter_def delivers_def)
next
  case (limited L fn)
  from limit_delivers[OF limited.IH reachable_ordered[OF limited.hyps]] show ?case .
next
  case (settled L e)
  from settle_delivers[OF settled.IH reachable_ordered[OF settled.hyps(1)] settled.hyps(2)]
  show ?case .
next
  case (released L e)
  from release_delivers[OF released.IH] show ?case .
qed

lemma release_starts_next:
  assumes "tidy L" "active L \<le> l_concurrency L" "queue L = g # rest"
  shows "started (release L e) = started L @ [g]" "g \<in> set (running (release L e))"
  using assms by (simp_all add: release_def next_task_def)

subsection \<open>Waiting for all tasks\<close>

lemma settleAll_tidy:
  "tidy L \<Longrightarrow> 1 \<le> l_concurrency L \<Longrightarrow>
   \<exists>L'. settleAll run L = Some (map fst (running L @ queue L), L')
         \<and> queue L' = [] \<and> running L' = [] \<and> submitted L' = submitted L"
proof (induction run L rule: settleAll.induct)
  case (1 run L)
  show ?case
  proof (cases "finishing L")
    case (Cons e fs)
    then have e: "e \<in> set (finishing L)" by simp
    let ?M = "L\<lparr>active := active L - 1, finishing := remove1 e (finishing L)\<rparr>"
    have c: "l_concurrency (release L e) = l_concurrency L"
      and s: "submitted (release L e) = submitted L"
      and q: "running (release L e) @ queue (release L e) = running L @ queue L"
      using next_task_fields[of ?M] by (simp_all add: release_def)
    from "1.IH"(2)[OF Cons release_tidy[OF "1.prems"(1) e]] "1.prems"(2) c s q
    obtain L' where "settleAll run (release L e) = Some (map fst (running L @ queue L), L')"
      "queue L' = []" "running L' = []" "submitted L' = submitted L" by auto
    with Cons show ?thesis by (simp add: settleAll.simps[of run L])
  next
    case Nil
    show ?thesis
    proof (cases "running L")
      case (Cons e rs)
      then have e: "e \<in> set (running L)" by simp
      have f: "l_concurrency (settle L e (run (fst e))) = l_concurrency L"
        "submitted (settle L e (run (fst e))) = submitted L"
        "running (settle L e (run (fst e))) = rs" "queue (settle L e (run (fst e))) = queue L"
        using Cons by (simp_all add: settle_def)
      from "1.IH"(1)[OF Nil Cons settle_tidy[OF "1.prems"(1) e]] "1.prems"(2) f
      obtain L' where "settleAll run (settle L e (run (fst e))) = Some (map fst (rs @ queue L), L')"
        "queue L' = []" "running L' = []" "submitted L' = submitted L" by auto
      with Nil Cons show ?thesis by (simp add: settleAll.simps[of run L])
    next
      case rn: Nil
      with Nil "1.prems" have "queue L = []" by (auto simp: tidy_def)
      with Nil rn show ?thesis by (simp add: settleAll.simps[of run L])
    qed
  qed
qed

lemma settleAll_reachable:
  "reachable run c L \<Longrightarrow> settleAll run L = Some (order, L') \<Longrightarrow> reachable run c L'"
proof (induction run L arbitrary: order rule: settleAll.induct)
  case (1 run L)
  show ?case
  proof (cases "finishing L")
    case (Cons e fs)
    then have "reachable run c (release L e)" using "1.prems"(1) by (intro reachable.released) simp_all
    moreover from "1.prems"(2) Cons have "settleAll run (release L e) = Some (order, L')"
      by (simp add: settleAll.simps[of run L])
    ultimately show ?thesis by (rule "1.IH"(2)[OF Cons])
  next
    case Nil
    show ?thesis
    proof (cases "running L")
      case (Cons e rs)
      then have r: "reachable run c (settle L e (run (fst e)))"
        using "1.prems"(1) by (intro reachable.settled) simp_all
      from "1.prems"(2) Nil Cons obtain order' where
        "settleAll run (settle L e (run (fst e))) = Some (order', L')"
        by (auto simp: settleAll.simps[of run L])
      with r show ?thesis by (rule "1.IH"(1)[OF Nil Cons])
    next
      case rn: Nil
      with Nil "1.prems" show ?thesis by (simp add: settleAll.simps[of run L] split: if_splits)
    qed
  qed
qed

lemma foldl_limit_reachable:
  "reachable run c L \<Longrightarrow> reachable run c (foldl limit L ts)"
  by (induction ts arbitrary: L) (auto intro: reachable.limited)

lemma foldl_limit_waiting:
  "map fst (running (foldl limit L ts) @ queue (foldl limit L ts)) = map fst (running L @ queue L) @ ts"
proof (induction ts arbitrary: L)
  case Nil
  show ?case by simp
next
  case (Cons t ts)
  let ?M = "L\<lparr>queue := queue L @ [(t, length (submitted L))],
               submitted := submitted L @ [(t, length (submitted L))]\<rparr>"
  have "running (limit L t) @ queue (limit L t) = running L @ queue L @ [(t, length (submitted L))]"
    using next_task_fields(6)[of ?M] by (simp add: limit_def)
  then have "map fst (running (limit L t) @ queue (limit L t)) = map fst (running L @ queue L) @ [t]"
    by simp
  with Cons.IH[of "limit L t"] show ?case by simp
qed

lemma settleAll_scan:
  assumes c: "1 \<le> c"
  shows "map_option fst (settleAll run (foldl limit (createLimiter c) ts)) = Some ts"
proof -
  let ?L = "foldl limit (createLimiter c :: ('a, 'b) limiter) ts"
  have "reachable run c ?L" by (intro foldl_limit_reachable reachable.created)
  from reachable_tidy[OF this] c have "tidy ?L" "1 \<le> l_concurrency ?L" by simp_all
  from settleAll_tidy[OF this, of run] foldl_limit_waiting[of "createLimiter c" ts]
  show ?thesis by (auto simp: createLimiter_def)
qed

lemma limit_stuck:
  assumes "l_concurrency L < 1" "active L = 0" "running L = []" "finishing L = []"
  shows "l_concurrency (limit L fn) < 1 \<and> active (limit L fn) = 0 \<and> running (limit L fn) = []
         \<and> finishing (limit L fn) = [] \<and> queue (limit L fn) \<noteq> []"
  using assms by (cases "queue L") (auto simp: limit_def next_task_def)

lemma foldl_limit_stuck:
  "l_concurrency L < 1 \<Longrightarrow> active L = 0 \<Longrightarrow> running L = [] \<Longrightarrow> finishing L = [] \<Longrightarrow>
   ts \<noteq> [] \<or> queue L \<noteq> [] \<Longrightarrow>
   running (foldl limit L ts) = [] \<and> finishing (foldl limit L ts) = [] \<and> queue (foldl limit L ts) \<noteq> []"
proof (induction ts arbitrary: L)
  case Nil
  then show ?case by simp
next
  case (Cons t ts)
  from limit_stuck[OF Cons.prems(1-4), of t] Cons.IH[of "limit L t"] show ?case by simp
qed

lemma settleAll_never:
  assumes c: "c < 1" and ts: "ts \<noteq> []"
  shows "settleAll run (foldl limit (createLimiter c) ts) = None"
proof -
  let ?C = "createLimiter c :: ('a, 'b) limiter"
  have "l_concurrency ?C < 1" "active ?C = 0" "running ?C = []" "finishing ?C = []"
    using c by (simp_all add: createLimiter_def)
  from foldl_limit_stuck[OF this, of ts] ts
  have "running (foldl limit ?C ts) = [] \<and> finishing (foldl limit ?C ts) = []
        \<and> queue (foldl limit ?C ts) \<noteq> []" by simp
  then show ?thesis by (simp add: settleAll.simps)
qed

lemma settleAll_order:
  assumes "settleAll run (foldl limit (createLimiter c) ts) = Some (order, L')"
  shows "order = ts"
proof (cases "1 \<le> c")
  case True
  from settleAll_scan[OF True, of run ts] assms show ?thesis by simp
next
  case False
  then have c: "c < 1" by simp
  show ?thesis
  proof (cases "ts = []")
    case True
    with assms show ?thesis by (simp add: settleAll.simps createLimiter_def)
  next
    case False
    with assms settleAll_never[OF c False, of run] show ?thesis by simp
  qed
qed

text \<open>
  C7. In every state that a limiter of capacity \<open>N \<ge> 0\<close> can reach, whatever the order of
  the calls of \<^verbatim>\<open>limit\<close> and of the callbacks and whatever the outcomes of the tasks:
  at most \<open>N\<close> tasks have been started and have not finished; the tasks started so far
  are the first of those submitted, in the order of submission, and the queue holds the
  rest in that order; a task waits only while \<open>N\<close> tasks hold the limiter; when the
  \<^verbatim>\<open>finally\<close> callback of a task runs and a task is waiting, the first in the queue is
  started, whether the finished task succeeded or failed; the promise that \<^verbatim>\<open>limit(fn)\<close>
  returned is pending while \<open>fn\<close> waits or runs and then holds the outcome of \<open>fn\<close>, and
  no other promise is touched. With \<open>N \<ge> 1\<close> no task is left behind: as the running tasks
  settle one after the other, succeeding or failing, every task running or queued is run
  in its turn, and in the end every task submitted has been started and has settled its
  own promise with its own outcome.
\<close>

theorem limiter_bound_and_order:
  assumes "reachable run N L" "0 \<le> N"
  shows "int (length (running L) + length (finishing L)) \<le> N
         \<and> submitted L = started L @ queue L
         \<and> (queue L \<noteq> [] \<longrightarrow> int (length (running L) + length (finishing L)) = N)
         \<and> (\<forall>e \<in> set (finishing L). \<forall>g rest. queue L = g # rest \<longrightarrow>
               started (release L e) = started L @ [g] \<and> g \<in> set (running (release L e)))
         \<and> (\<forall>e \<in> set (submitted L).
               promises L (snd e) =
                 (if e \<in> set (queue L) \<union> set (running L) then None else Some (run (fst e))))
         \<and> (\<forall>p. length (submitted L) \<le> p \<longrightarrow> promises L p = None)
         \<and> (1 \<le> N \<longrightarrow>
              (\<exists>L'. settleAll run L = Some (map fst (running L @ queue L), L')
                 \<and> reachable run N L'
                 \<and> started L' = submitted L
                 \<and> (\<forall>e \<in> set (submitted L). promises L' (snd e) = Some (run (fst e)))))"
proof -
  from reachable_tidy[OF assms(1)] assms(2)
  have t: "tidy L" and c: "l_concurrency L = N" and b: "active L \<le> N" by simp_all
  from t c have a: "active L = int (length (running L) + length (finishing L))"
    and w: "queue L = [] \<or> N \<le> active L" unfolding tidy_def by auto
  note f = orderedD(1)[OF reachable_ordered[OF assms(1)]]
  from reachable_delivers[OF assms(1)]
  have d1: "\<forall>e \<in> set (submitted L).
               promises L (snd e) =
                 (if e \<in> set (queue L) \<union> set (running L) then None else Some (run (fst e)))"
    and d2: "\<forall>p. length (submitted L) \<le> p \<longrightarrow> promises L p = None"
    by (simp_all add: delivers_def)
  have one: "int (length (running L) + length (finishing L)) \<le> N" using a b by simp
  have full: "queue L \<noteq> [] \<longrightarrow> int (length (running L) + length (finishing L)) = N"
    using a b w by auto
  have nxt: "\<forall>e \<in> set (finishing L). \<forall>g rest. queue L = g # rest \<longrightarrow>
               started (release L e) = started L @ [g] \<and> g \<in> set (running (release L e))"
  proof (intro ballI allI impI)
    fix e g rest assume q: "queue L = g # rest"
    from b c have "active L \<le> l_concurrency L" by simp
    from release_starts_next[OF t this q, of e]
    show "started (release L e) = started L @ [g] \<and> g \<in> set (running (release L e))" by simp
  qed
  have all: "1 \<le> N \<longrightarrow>
              (\<exists>L'. settleAll run L = Some (map fst (running L @ queue L), L')
                 \<and> reachable run N L'
                 \<and> started L' = submitted L
                 \<and> (\<forall>e \<in> set (submitted L). promises L' (snd e) = Some (run (fst e))))"
  proof
    assume "1 \<le> N"
    with c have "1 \<le> l_concurrency L" by simp
    from settleAll_tidy[OF t this, of run] obtain L' where
      s: "settleAll run L = Some (map fst (running L @ queue L), L')"
      and e: "queue L' = []" "running L' = []" "submitted L' = submitted L" by blast
    from settleAll_reachable[OF assms(1) s] have r: "reachable run N L'" .
    from orderedD(1)[OF reachable_ordered[OF r]] e have st: "started L' = submitted L" by simp
    from reachable_delivers[OF r] e
    have "\<forall>e \<in> set (submitted L). promises L' (snd e) = Some (run (fst e))"
      by (simp add: delivers_def)
    with s r st show "\<exists>L'. settleAll run L = Some (map fst (running L @ queue L), L')
                 \<and> reachable run N L'
                 \<and> started L' = submitted L
                 \<and> (\<forall>e \<in> set (submitted L). promises L' (snd e) = Some (run (fst e)))" by blast
  qed
  from one f full nxt d1 d2 all show ?thesis by (intro conjI)
qed


theorem limiter_bound_and_order_witness:
  "running exampleLimiter = [(2, 1)] \<and> finishing exampleLimiter = [(1, 0)]
   \<and> queue exampleLimiter = [(3, 2)]
   \<and> promises exampleLimiter 0 = Some (Failed (plainError ''failed''))
   \<and> promises exampleLimiter 1 = None
   \<and> started (release exampleLimiter (1, 0)) = [(1, 0), (2, 1), (3, 2)]
   \<and> (\<exists>L'. settleAll exampleRun exampleLimiter = Some ([2, 3], L')
          \<and> promises L' 0 = Some (Failed (plainError ''failed''))
          \<and> promises L' 1 = Some (Fulfilled ())
          \<and> promises L' 2 = Some (Fulfilled ()))"
proof -
  define L0 where "L0 = limit (limit (limit (createLimiter 2 :: (nat, unit) limiter) 1) 2) 3"
  have l: "running L0 = [(1, 0), (2, 1)]" "queue L0 = [(3, 2)]" "finishing L0 = []"
    "submitted L0 = [(1, 0), (2, 1), (3, 2)]" "started L0 = [(1, 0), (2, 1)]"
    "promises L0 = Map.empty"
    by (simp_all add: L0_def limit_def next_task_def createLimiter_def)
  have e: "exampleLimiter = settle L0 (1, 0) (exampleRun (fst (1 :: nat, 0 :: nat)))"
    by (simp add: exampleLimiter_def L0_def)
  have "reachable exampleRun 2 L0" unfolding L0_def by (intro reachable.intros)
  then have r: "reachable exampleRun 2 exampleLimiter"
    unfolding e by (rule reachable.settled) (simp add: l)
  have f: "running exampleLimiter = [(2, 1)]" "finishing exampleLimiter = [(1, 0)]"
    "queue exampleLimiter = [(3, 2)]" "submitted exampleLimiter = [(1, 0), (2, 1), (3, 2)]"
    "started exampleLimiter = [(1, 0), (2, 1)]"
    by (simp_all add: e settle_def l)
  from limiter_bound_and_order[OF r] f show ?thesis
    by (auto simp: exampleRun_def)
qed

section \<open>The stages of the scan in closed form\<close>

subsection \<open>Plain objects\<close>

lemma proto_inherited: "''__proto__'' \<in> set objectPrototype"
  by (simp add: objectPrototype_def)

lemma inheritedName_proto: "\<not> inheritedName c \<Longrightarrow> c \<noteq> ''__proto__''"
  using proto_inherited by (auto simp: inheritedName_def)

lemma channel_id_not_inherited: "prefix ''UC'' c \<Longrightarrow> \<not> inheritedName c"
  by (auto simp: inheritedName_def objectPrototype_def)

lemma emptyObject_simps [simp]:
  "own emptyObject = Map.empty" "inherited emptyObject = objectPrototype"
  by (simp_all add: emptyObject_def)

lemma keeper_empty: "keeper emptyObject"
  by (simp add: keeper_def)

lemma own_assign:
  "k \<noteq> ''__proto__'' \<Longrightarrow> own (assign obj c v kind) k = (if c = k then Some v else own obj k)"
  by (auto simp: assign_def split: assigned.splits)

lemma assign_plain:
  "c \<noteq> ''__proto__'' \<Longrightarrow> assign obj c v kind = obj\<lparr> own := (own obj)(c \<mapsto> v) \<rparr>"
  by (simp add: assign_def)

lemma keeper_assign:
  assumes "keeper obj"
  shows "keeper (assign obj c v (Object keys))"
    and "own (assign obj c v (Object keys)) = (if c = ''__proto__'' then own obj else (own obj)(c \<mapsto> v))"
    and "c \<noteq> ''__proto__'' \<Longrightarrow> inherited (assign obj c v (Object keys)) = inherited obj"
  using assms proto_inherited by (auto simp: keeper_def assign_def)

lemma keeper_hasProperty:
  assumes "keeper obj"
  shows "hasProperty obj ''__proto__''" and "inheritedName c \<Longrightarrow> hasProperty obj c"
  using assms proto_inherited by (auto simp: keeper_def hasProperty_def inheritedName_def)

lemma assign_fold:
  assumes "keeper obj"
  shows "keeper (foldl (\<lambda>r c. assign r c (f c) (Object keys)) obj cs)
         \<and> own (foldl (\<lambda>r c. assign r c (f c) (Object keys)) obj cs)
             = (\<lambda>x. if x \<in> set cs \<and> x \<noteq> ''__proto__'' then Some (f x) else own obj x)
         \<and> (''__proto__'' \<notin> set cs \<longrightarrow>
              inherited (foldl (\<lambda>r c. assign r c (f c) (Object keys)) obj cs) = inherited obj)"
  using assms
proof (induction cs arbitrary: obj)
  case Nil
  then show ?case by simp
next
  case (Cons c cs)
  note k = keeper_assign[OF Cons.prems, of c "f c" keys]
  from Cons.IH[OF k(1)] k(2,3) show ?case by (auto simp: fun_eq_iff)
qed

subsection \<open>Step 1\<close>

lemma isFresh_Some: "isFresh E c x ttl \<Longrightarrow> \<exists>e. x = Some e"
  by (cases x) (auto simp: isFresh_def)

lemma fromCache_hit:
  "cacheHit E s b store c \<Longrightarrow> store (cacheKey c) = Some e \<Longrightarrow>
   fromCache E s b store (R, T) c = (assign R c (cachedResult E s c e) (Object timedKeys), T)"
  by (simp add: fromCache_def cacheHit_def cachedResult_def)

lemma fromCache_miss:
  "\<not> cacheHit E s b store c \<Longrightarrow>
   fromCache E s b store (R, T) c = (R, T @ [(c, cachedPlaylistId store c)])"
  by (auto simp: fromCache_def cacheHit_def cachedPlaylistId_def Let_def)

lemma cacheHit_Some: "cacheHit E s b store c \<Longrightarrow> \<exists>e. store (cacheKey c) = Some e"
  by (auto simp: cacheHit_def dest: isFresh_Some)

lemma fromCache_fold:
  assumes "keeper R"
  shows "\<exists>R'. foldl (fromCache E s b store) (R, T) ids =
            (R', T @ map (\<lambda>c. (c, cachedPlaylistId store c)) (filter (\<lambda>c. \<not> cacheHit E s b store c) ids))
          \<and> keeper R'
          \<and> own R' = (\<lambda>c. if c \<in> set ids \<and> c \<noteq> ''__proto__'' \<and> cacheHit E s b store c
                          then map_option (cachedResult E s c) (store (cacheKey c)) else own R c)
          \<and> (''__proto__'' \<notin> set ids \<longrightarrow> inherited R' = inherited R)"
  using assms
proof (induction ids arbitrary: R T)
  case Nil
  then show ?case by simp
next
  case (Cons x xs)
  show ?case
  proof (cases "cacheHit E s b store x")
    case True
    then obtain e where e: "store (cacheKey x) = Some e" using cacheHit_Some by blast
    let ?R = "assign R x (cachedResult E s x e) (Object timedKeys)"
    note k = keeper_assign[OF Cons.prems, of x "cachedResult E s x e" timedKeys]
    from Cons.IH[OF k(1), of T] obtain R' where
      f: "foldl (fromCache E s b store) (?R, T) xs =
            (R', T @ map (\<lambda>c. (c, cachedPlaylistId store c)) (filter (\<lambda>c. \<not> cacheHit E s b store c) xs))"
      and kr: "keeper R'"
      and o: "own R' = (\<lambda>c. if c \<in> set xs \<and> c \<noteq> ''__proto__'' \<and> cacheHit E s b store c
                          then map_option (cachedResult E s c) (store (cacheKey c)) else own ?R c)"
      and i: "''__proto__'' \<notin> set xs \<longrightarrow> inherited R' = inherited ?R"
      by blast
    have "own R' = (\<lambda>c. if c \<in> set (x # xs) \<and> c \<noteq> ''__proto__'' \<and> cacheHit E s b store c
                          then map_option (cachedResult E s c) (store (cacheKey c)) else own R c)"
      unfolding o k(2) using True e by (auto simp: fun_eq_iff)
    moreover have "''__proto__'' \<notin> set (x # xs) \<longrightarrow> inherited R' = inherited R"
      using i k(3) by auto
    ultimately show ?thesis using f kr True by (simp add: fromCache_hit[OF True e])
  next
    case False
    from Cons.IH[OF Cons.prems, of "T @ [(x, cachedPlaylistId store x)]"] obtain R' where
      f: "foldl (fromCache E s b store) (R, T @ [(x, cachedPlaylistId store x)]) xs =
            (R', (T @ [(x, cachedPlaylistId store x)]) @
                 map (\<lambda>c. (c, cachedPlaylistId store c)) (filter (\<lambda>c. \<not> cacheHit E s b store c) xs))"
      and kr: "keeper R'"
      and o: "own R' = (\<lambda>c. if c \<in> set xs \<and> c \<noteq> ''__proto__'' \<and> cacheHit E s b store c
                          then map_option (cachedResult E s c) (store (cacheKey c)) else own R c)"
      and i: "''__proto__'' \<notin> set xs \<longrightarrow> inherited R' = inherited R"
      by blast
    have "own R' = (\<lambda>c. if c \<in> set (x # xs) \<and> c \<noteq> ''__proto__'' \<and> cacheHit E s b store c
                          then map_option (cachedResult E s c) (store (cacheKey c)) else own R c)"
      unfolding o using False by (auto simp: fun_eq_iff)
    moreover have "''__proto__'' \<notin> set (x # xs) \<longrightarrow> inherited R' = inherited R"
      using i by auto
    ultimately show ?thesis using f kr False by (simp add: fromCache_miss[OF False])
  qed
qed

lemma step1:
  "\<exists>R1. foldl (fromCache E s b store) (emptyObject, []) ids = (R1, misses E s b store ids)
        \<and> keeper R1 \<and> own R1 = hits E s b store ids
        \<and> (''__proto__'' \<notin> set ids \<longrightarrow> inherited R1 = objectPrototype)"
  using fromCache_fold[OF keeper_empty, of E s b store "[]" ids]
  by (simp add: hits_def misses_def cong: if_cong)

lemma misses_missIds:
  "misses E s b store ids = map (\<lambda>c. (c, cachedPlaylistId store c)) (missIds E s b store ids)"
  by (simp add: misses_def missIds_def)

lemma need_of_misses:
  "map fst (filter (\<lambda>c. \<not> truthy (snd c)) (misses E s b store ids)) = needIds E s b store ids"
  by (simp add: misses_missIds needIds_def filter_map comp_def)

lemma set_missIds: "set (missIds E s b store ids) = {c \<in> set ids. \<not> cacheHit E s b store c}"
  by (auto simp: missIds_def)

lemma set_needIds: "set (needIds E s b store ids) \<subseteq> set (missIds E s b store ids)"
  by (auto simp: needIds_def)

lemma all_missing:
  assumes "\<forall>c \<in> set ids. \<not> cacheHit E s b store c \<and> \<not> truthy (cachedPlaylistId store c)"
  shows "missIds E s b store ids = ids" "needIds E s b store ids = ids" "hits E s b store ids = Map.empty"
  using assms by (auto simp: missIds_def needIds_def hits_def fun_eq_iff)

subsection \<open>The batch stage\<close>

lemma resolveBatch_Json:
  "snd (fetchJsonWithRetry (channelsAnswer E k) (channelsUrl s batch)) = Json d \<Longrightarrow>
   resolveBatch E s k batch (pm, R, calls) =
     (recordItems pm d batch, R,
      calls @ [BatchCall batch (fst (fetchJsonWithRetry (channelsAnswer E k) (channelsUrl s batch)))])"
  by (simp add: resolveBatch_def Let_def)

lemma resolveBatch_error:
  assumes "keeper R"
    and "thrownBy (snd (fetchJsonWithRetry (channelsAnswer E k) (channelsUrl s batch))) = Some e"
  shows "\<exists>R'. resolveBatch E s k batch (pm, R, calls) =
            (pm, R', calls @ [BatchCall batch (fst (fetchJsonWithRetry (channelsAnswer E k) (channelsUrl s batch)))])
          \<and> keeper R'
          \<and> own R' = (\<lambda>c. if c \<in> set batch \<and> c \<noteq> ''__proto__'' then Some (errorResult s e) else own R c)
          \<and> (''__proto__'' \<notin> set batch \<longrightarrow> inherited R' = inherited R)"
proof -
  let ?R = "foldl (\<lambda>r cid. assign r cid (errorResult s e) (Object errorKeys)) R batch"
  have "resolveBatch E s k batch (pm, R, calls) =
      (pm, ?R, calls @ [BatchCall batch (fst (fetchJsonWithRetry (channelsAnswer E k) (channelsUrl s batch)))])"
    using assms(2)
    by (cases "snd (fetchJsonWithRetry (channelsAnswer E k) (channelsUrl s batch))")
       (auto simp: resolveBatch_def Let_def)
  with assign_fold[OF assms(1), of "\<lambda>c. errorResult s e" errorKeys batch] show ?thesis by simp
qed

lemma thrownBy_None: "thrownBy x = None \<longleftrightarrow> (\<exists>d. x = Json d)"
  by (cases x) auto

lemma resolve_unfold:
  assumes "50 * k < length need"
  shows "resolvePlaylistIds E s need (50 * k) acc =
     resolvePlaylistIds E s need (50 * Suc k) (resolveBatch E s k (chunk need k) acc)"
proof -
  have i: "50 * k + 50 = 50 * Suc k" by simp
  have d: "50 * k div 50 = k" by simp
  show ?thesis
    by (subst resolvePlaylistIds.simps) (simp only: assms if_True i d chunk_def)
qed

lemma resolve_done:
  "\<not> 50 * k < length need \<Longrightarrow> resolvePlaylistIds E s need (50 * k) acc = acc"
  by (subst resolvePlaylistIds.simps) (simp only: if_False)

lemma nchunks_less: "k < nchunks need \<longleftrightarrow> 50 * k < length need"
proof -
  have "(length need + 49) div 50 < Suc k \<longleftrightarrow> length need + 49 < Suc k * 50"
    by (rule div_less_iff_less_mult) simp
  then show ?thesis unfolding nchunks_def by linarith
qed

lemma set_chunk: "set (chunk need k) \<subseteq> set need"
  unfolding chunk_def by (meson set_take_subset set_drop_subset subset_trans)

lemma resolveBatch_mark:
  assumes "keeper R"
  shows "\<exists>R'. resolveBatch E s k (chunk need k) (pm, R, calls) =
            (recordChunk E s need pm k, R', calls @ [batchCall E s need k])
          \<and> keeper R' \<and> own R' = markFailed E s need (own R) k
          \<and> (''__proto__'' \<notin> set need \<longrightarrow> inherited R' = inherited R)"
proof (cases "thrownBy (batchOutcome E s need k)")
  case None
  then obtain d where "batchOutcome E s need k = Json d" by (auto simp: thrownBy_None)
  with None assms show ?thesis
    using resolveBatch_Json[of E k s "chunk need k" d pm R calls]
    by (simp add: batchOutcome_def markFailed_def batchCall_def recordChunk_def)
next
  case (Some e)
  then have pm: "recordChunk E s need pm k = pm"
    by (cases "batchOutcome E s need k") (simp_all add: recordChunk_def)
  from Some have t: "thrownBy (snd (fetchJsonWithRetry (channelsAnswer E k) (channelsUrl s (chunk need k)))) = Some e"
    by (simp add: batchOutcome_def)
  from resolveBatch_error[OF assms t, of pm calls] obtain R' where
    "resolveBatch E s k (chunk need k) (pm, R, calls) =
            (pm, R', calls @ [BatchCall (chunk need k)
               (fst (fetchJsonWithRetry (channelsAnswer E k) (channelsUrl s (chunk need k))))])"
    "keeper R'"
    "own R' = (\<lambda>c. if c \<in> set (chunk need k) \<and> c \<noteq> ''__proto__'' then Some (errorResult s e) else own R c)"
    "''__proto__'' \<notin> set (chunk need k) \<longrightarrow> inherited R' = inherited R"
    by blast
  with Some pm set_chunk[of need k] show ?thesis
    by (intro exI[of _ R']) (auto simp: markFailed_def batchCall_def)
qed

lemma resolve_fold:
  "keeper R \<Longrightarrow> resolvePlaylistIds E s need (50 * k) (pm, R, calls) = (pm', R', calls') \<Longrightarrow>
   pm' = foldl (recordChunk E s need) pm [k..<nchunks need]
   \<and> keeper R'
   \<and> own R' = foldl (markFailed E s need) (own R) [k..<nchunks need]
   \<and> calls' = calls @ map (batchCall E s need) [k..<nchunks need]
   \<and> (''__proto__'' \<notin> set need \<longrightarrow> inherited R' = inherited R)"
proof (induction "nchunks need - k" arbitrary: k pm R calls)
  case 0
  then have "\<not> 50 * k < length need" by (simp add: nchunks_less[symmetric])
  with "0.prems" "0.hyps" show ?case by (simp add: resolve_done)
next
  case (Suc n)
  then have lt: "k < nchunks need" by simp
  then have l: "50 * k < length need" by (simp add: nchunks_less)
  from resolveBatch_mark[OF Suc.prems(1), of E s k need pm calls] obtain R1 where
    b: "resolveBatch E s k (chunk need k) (pm, R, calls) =
          (recordChunk E s need pm k, R1, calls @ [batchCall E s need k])"
    and k1: "keeper R1" and o1: "own R1 = markFailed E s need (own R) k"
    and i1: "''__proto__'' \<notin> set need \<longrightarrow> inherited R1 = inherited R"
    by blast
  from Suc.prems(2) have r: "resolvePlaylistIds E s need (50 * Suc k)
     (recordChunk E s need pm k, R1, calls @ [batchCall E s need k]) = (pm', R', calls')"
    by (simp only: resolve_unfold[OF l] b)
  from Suc.hyps(2) have n: "n = nchunks need - Suc k" by simp
  from Suc.hyps(1)[OF n k1 r] o1 i1 lt show ?case by (simp add: upt_conv_Cons)
qed

lemma markFailed_other: "x \<notin> set (chunk need k) \<Longrightarrow> markFailed E s need R k x = R x"
  by (simp add: markFailed_def split: option.splits)

lemma markFailed_fold_other:
  "\<forall>k \<in> set ks. x \<notin> set (chunk need k) \<or> thrownBy (batchOutcome E s need k) = None \<Longrightarrow>
   foldl (markFailed E s need) R ks x = R x"
proof (induction ks arbitrary: R)
  case Nil
  show ?case by simp
next
  case (Cons k ks)
  then have "markFailed E s need R k x = R x"
    by (auto simp: markFailed_def split: option.splits)
  with Cons show ?case by simp
qed

lemma markFailed_fold_outside:
  "x \<notin> set need \<Longrightarrow> foldl (markFailed E s need) R ks x = R x"
  by (rule markFailed_fold_other) (use set_chunk in blast)

lemma markFailed_fold_kept:
  "R x \<noteq> None \<Longrightarrow> foldl (markFailed E s need) R ks x \<noteq> None"
proof (induction ks arbitrary: R)
  case Nil
  then show ?case by simp
next
  case (Cons k ks)
  then have "markFailed E s need R k x \<noteq> None"
    by (auto simp: markFailed_def split: option.splits)
  with Cons show ?case by simp
qed

lemma in_chunk:
  "x \<in> set (chunk xs k) \<longleftrightarrow> (\<exists>i. 50 * k \<le> i \<and> i < 50 * k + 50 \<and> i < length xs \<and> xs ! i = x)"
proof
  assume "x \<in> set (chunk xs k)"
  then obtain j where j: "j < length (chunk xs k)" "chunk xs k ! j = x"
    by (auto simp: in_set_conv_nth)
  then have "j < 50" "50 * k + j < length xs" "xs ! (50 * k + j) = x"
    by (auto simp: chunk_def)
  then show "\<exists>i. 50 * k \<le> i \<and> i < 50 * k + 50 \<and> i < length xs \<and> xs ! i = x"
    by (intro exI[of _ "50 * k + j"]) simp
next
  assume "\<exists>i. 50 * k \<le> i \<and> i < 50 * k + 50 \<and> i < length xs \<and> xs ! i = x"
  then obtain i where i: "50 * k \<le> i" "i < 50 * k + 50" "i < length xs" "xs ! i = x" by blast
  then have "i - 50 * k < length (chunk xs k)" "chunk xs k ! (i - 50 * k) = x"
    by (auto simp: chunk_def)
  then show "x \<in> set (chunk xs k)" by (metis nth_mem)
qed

lemma chunk_disjoint:
  assumes "distinct xs" "x \<in> set (chunk xs k)" "x \<in> set (chunk xs k')"
  shows "k = k'"
proof -
  from assms(2) obtain i where i: "50 * k \<le> i" "i < 50 * k + 50" "i < length xs" "xs ! i = x"
    by (auto simp: in_chunk)
  from assms(3) obtain j where j: "50 * k' \<le> j" "j < 50 * k' + 50" "j < length xs" "xs ! j = x"
    by (auto simp: in_chunk)
  from nth_eq_iff_index_eq[OF assms(1) i(3) j(3)] i(4) j(4) have "i = j" by simp
  with i j show ?thesis by linarith
qed

lemma markFailed_fold_failed:
  assumes d: "distinct need" and k: "k \<in> set ks" and dk: "distinct ks"
    and c: "c \<in> set (chunk need k)" and p: "c \<noteq> ''__proto__''"
    and e: "thrownBy (batchOutcome E s need k) = Some e"
  shows "foldl (markFailed E s need) R ks c = Some (errorResult s e)"
proof -
  from k obtain ks1 ks2 where ks: "ks = ks1 @ k # ks2" by (meson split_list)
  with dk have nk: "k \<notin> set ks2" by auto
  have "\<forall>k' \<in> set ks2. c \<notin> set (chunk need k') \<or> thrownBy (batchOutcome E s need k') = None"
    using chunk_disjoint[OF d c] nk by blast
  then have "foldl (markFailed E s need) (markFailed E s need (foldl (markFailed E s need) R ks1) k) ks2 c
      = markFailed E s need (foldl (markFailed E s need) R ks1) k c"
    by (rule markFailed_fold_other)
  also have "\<dots> = Some (errorResult s e)" using c e p by (simp add: markFailed_def)
  finally show ?thesis by (simp add: ks)
qed

lemma markFailed_fold_passed:
  assumes d: "distinct need" and c: "c \<in> set (chunk need k)"
    and e: "thrownBy (batchOutcome E s need k) = None"
  shows "foldl (markFailed E s need) R ks c = R c"
proof (rule markFailed_fold_other, rule ballI)
  fix k' assume "k' \<in> set ks"
  show "c \<notin> set (chunk need k') \<or> thrownBy (batchOutcome E s need k') = None"
  proof (cases "k' = k")
    case True
    with e show ?thesis by simp
  next
    case False
    with chunk_disjoint[OF d c, of k'] show ?thesis by auto
  qed
qed

lemma chunks_120:
  assumes "length ids = 120"
  shows "nchunks ids = 3" "chunk ids 0 = take 50 ids" "chunk ids 1 = take 50 (drop 50 ids)"
    "chunk ids 2 = drop 100 ids"
  using assms by (simp_all add: nchunks_def chunk_def)

lemma batchCalls_append: "batchCalls (xs @ ys) = batchCalls xs @ batchCalls ys"
  by (induction xs rule: batchCalls.induct) auto

lemma batchCalls_batch: "batchCalls (map (batchCall E s need) ks) = map (batchCall E s need) ks"
  by (induction ks) (auto simp: batchCall_def)

lemma batchCalls_detail: "batchCalls (map (detailCall E s) ts) = []"
  by (induction ts) (auto simp: detailCall_def)

lemma callSubjects_batchCall: "callSubjects (batchCall E s need k) \<subseteq> set need"
  using set_chunk by (simp add: batchCall_def)

text \<open>What the answers leave in \<^verbatim>\<open>playlistIdMap\<close> for an id.\<close>

lemma handleIn_append: "handleIn (xs @ ys) c h = handleIn ys c (handleIn xs c h)"
proof (cases "filter (\<lambda>item. item_id item = c) ys")
  case Nil
  then show ?thesis by (simp add: handleIn_def)
next
  case (Cons y zs)
  then have "last (filter (\<lambda>item. item_id item = c) xs @ y # zs) = last (y # zs)" by simp
  with Cons show ?thesis
    by (cases "filter (\<lambda>item. item_id item = c) xs") (simp_all add: handleIn_def)
qed

lemma items_fold:
  "c \<noteq> ''__proto__'' \<Longrightarrow>
   plannedPlaylist (foldl (\<lambda>m item. assign m (item_id item) (uploads item) (kindOf (uploads item))) pm xs)
       (c, None) = handleIn xs c (plannedPlaylist pm (c, None))"
proof (induction xs arbitrary: pm)
  case Nil
  show ?case by (simp add: handleIn_def)
next
  case (Cons x xs)
  let ?pm = "assign pm (item_id x) (uploads x) (kindOf (uploads x))"
  have one: "plannedPlaylist ?pm (c, None) = handleIn [x] c (plannedPlaylist pm (c, None))"
    using Cons.prems by (simp add: plannedPlaylist_def own_assign handleIn_def)
  have "handleIn (x # xs) c (plannedPlaylist pm (c, None)) =
        handleIn xs c (handleIn [x] c (plannedPlaylist pm (c, None)))"
    using handleIn_append[of "[x]" xs] by simp
  with Cons.IH[OF Cons.prems, of ?pm] one show ?case by simp
qed

lemma null_fold:
  "c \<noteq> ''__proto__'' \<Longrightarrow>
   plannedPlaylist (foldl (\<lambda>m cid. if hasProperty m cid then m else assign m cid None Null) pm batch)
       (c, None) = plannedPlaylist pm (c, None)"
proof (induction batch arbitrary: pm)
  case Nil
  show ?case by simp
next
  case (Cons x xs)
  let ?pm = "if hasProperty pm x then pm else assign pm x None Null"
  have "plannedPlaylist ?pm (c, None) = plannedPlaylist pm (c, None)"
    using Cons.prems by (auto simp: plannedPlaylist_def own_assign hasProperty_def)
  with Cons.IH[OF Cons.prems, of ?pm] show ?case by simp
qed

lemma recordItems_handle:
  "c \<noteq> ''__proto__'' \<Longrightarrow>
   plannedPlaylist (recordItems pm d batch) (c, None) =
     handleIn (case items d of None \<Rightarrow> [] | Some xs \<Rightarrow> xs) c (plannedPlaylist pm (c, None))"
  by (simp add: recordItems_def null_fold items_fold)

lemma recordChunk_handle:
  "c \<noteq> ''__proto__'' \<Longrightarrow>
   plannedPlaylist (recordChunk E s need pm k) (c, None) =
     handleIn (answeredItems E s need k) c (plannedPlaylist pm (c, None))"
  by (cases "batchOutcome E s need k")
     (simp_all add: recordChunk_def answeredItems_def recordItems_handle handleIn_def)

lemma resolved_fold:
  "c \<noteq> ''__proto__'' \<Longrightarrow>
   plannedPlaylist (foldl (recordChunk E s need) pm ks) (c, None) =
     handleIn (concat (map (answeredItems E s need) ks)) c (plannedPlaylist pm (c, None))"
proof (induction ks arbitrary: pm)
  case Nil
  show ?case by (simp add: handleIn_def)
next
  case (Cons k ks)
  from Cons.IH[OF Cons.prems, of "recordChunk E s need pm k"] recordChunk_handle[OF Cons.prems, of E s need pm k]
  show ?case by (simp add: handleIn_append)
qed

lemma resolved_handle:
  "c \<noteq> ''__proto__'' \<Longrightarrow>
   plannedPlaylist (foldl (recordChunk E s need) emptyObject [0..<nchunks need]) (c, None) =
     resolvedHandle E s need c"
  by (simp add: resolved_fold resolvedHandle_def) (simp add: plannedPlaylist_def)

subsection \<open>The detail stage\<close>

lemma planDetail_eq:
  "planDetail s pm (R, T) (c, g) =
     (if hasProperty R c then (R, T)
      else if truthy (plannedPlaylist pm (c, g))
           then (R, T @ [(c, case plannedPlaylist pm (c, g) of None \<Rightarrow> [] | Some p \<Rightarrow> p)])
           else (assign R c (noUploadsResult s) (Object noUploadsKeys), T))"
  by (auto simp: planDetail_def plannedPlaylist_def truthy_def split: option.splits)

lemma planResults_Cons:
  "R x \<noteq> None \<or> x \<in> set I \<Longrightarrow> planResults s plan I R (x # xs) = planResults s plan I R xs"
  "R x = None \<Longrightarrow> plan x \<Longrightarrow> planResults s plan I R (x # xs) = planResults s plan I R xs"
  "R x = None \<Longrightarrow> x \<notin> set I \<Longrightarrow> \<not> plan x \<Longrightarrow>
     planResults s plan I R (x # xs) = planResults s plan I (R(x \<mapsto> noUploadsResult s)) xs"
  by (auto simp: planResults_def fun_eq_iff)

lemma planTasks_Cons:
  "R x \<noteq> None \<or> x \<in> set I \<Longrightarrow> planTasks plan I R (x # xs) = planTasks plan I R xs"
  "R x = None \<Longrightarrow> x \<notin> set I \<Longrightarrow> plan x \<Longrightarrow> planTasks plan I R (x # xs) = x # planTasks plan I R xs"
  "R x = None \<Longrightarrow> \<not> plan x \<Longrightarrow>
     planTasks plan I R (x # xs) = planTasks plan I (R(x \<mapsto> v)) xs"
proof -
  assume n: "R x = None" "\<not> plan x"
  have "filter (\<lambda>y. (R(x \<mapsto> v)) y = None \<and> y \<notin> set I \<and> plan y) xs =
        filter (\<lambda>y. R y = None \<and> y \<notin> set I \<and> plan y) xs"
    using n by (intro filter_cong) auto
  with n show "planTasks plan I R (x # xs) = planTasks plan I (R(x \<mapsto> v)) xs"
    by (simp add: planTasks_def)
qed (auto simp: planTasks_def)

lemma plan_fold:
  assumes "keeper R"
  shows "\<exists>R'. foldl (planDetail s pm) (R, T) (map (\<lambda>c. (c, cachedPlaylistId store c)) xs) =
            (R', T @ map (taskOf pm store) (planTasks (planned pm store) (inherited R) (own R) xs))
          \<and> keeper R' \<and> inherited R' = inherited R
          \<and> own R' = planResults s (planned pm store) (inherited R) (own R) xs"
  using assms
proof (induction xs arbitrary: R T)
  case Nil
  show ?case using Nil.prems by (auto simp: fun_eq_iff planResults_def planTasks_def)
next
  case (Cons x xs)
  let ?I = "inherited R" and ?plan = "planned pm store"
  have step: "planDetail s pm (R, T) (x, cachedPlaylistId store x) =
     (if hasProperty R x then (R, T)
      else if ?plan x then (R, T @ [taskOf pm store x])
           else (assign R x (noUploadsResult s) (Object noUploadsKeys), T))"
    by (simp add: planDetail_eq planned_def taskOf_def)
  consider (kept) "own R x \<noteq> None \<or> x \<in> set ?I"
    | (task) "own R x = None" "x \<notin> set ?I" "?plan x"
    | (none) "own R x = None" "x \<notin> set ?I" "\<not> ?plan x"
    by blast
  then show ?case
  proof cases
    case kept
    then have "planDetail s pm (R, T) (x, cachedPlaylistId store x) = (R, T)"
      unfolding step by (simp add: hasProperty_def)
    then have f: "foldl (planDetail s pm) (R, T) (map (\<lambda>c. (c, cachedPlaylistId store c)) (x # xs)) =
      foldl (planDetail s pm) (R, T) (map (\<lambda>c. (c, cachedPlaylistId store c)) xs)" by simp
    from Cons.IH[OF Cons.prems, of T] show ?thesis
      unfolding f planResults_Cons(1)[of "own R" x ?I, OF kept] planTasks_Cons(1)[of "own R" x ?I, OF kept] .
  next
    case task
    then have "planDetail s pm (R, T) (x, cachedPlaylistId store x) = (R, T @ [taskOf pm store x])"
      unfolding step by (simp add: hasProperty_def)
    then have f: "foldl (planDetail s pm) (R, T) (map (\<lambda>c. (c, cachedPlaylistId store c)) (x # xs)) =
      foldl (planDetail s pm) (R, T @ [taskOf pm store x]) (map (\<lambda>c. (c, cachedPlaylistId store c)) xs)"
      by simp
    from Cons.IH[OF Cons.prems, of "T @ [taskOf pm store x]"] show ?thesis
      unfolding f planResults_Cons(2)[of "own R" x ?plan, OF task(1,3)]
        planTasks_Cons(2)[of "own R" x ?I ?plan, OF task] by simp
  next
    case none
    from none(2) Cons.prems proto_inherited have p: "x \<noteq> ''__proto__''"
      by (auto simp: keeper_def)
    let ?R = "assign R x (noUploadsResult s) (Object noUploadsKeys)"
    note k = keeper_assign[OF Cons.prems, of x "noUploadsResult s" noUploadsKeys]
    from k(2) p have o: "own ?R = (own R)(x \<mapsto> noUploadsResult s)" by simp
    from k(3) p have i: "inherited ?R = inherited R" by simp
    from none have "planDetail s pm (R, T) (x, cachedPlaylistId store x) = (?R, T)"
      unfolding step by (simp add: hasProperty_def)
    then have f: "foldl (planDetail s pm) (R, T) (map (\<lambda>c. (c, cachedPlaylistId store c)) (x # xs)) =
      foldl (planDetail s pm) (?R, T) (map (\<lambda>c. (c, cachedPlaylistId store c)) xs)"
      by simp
    from Cons.IH[OF k(1), of T] show ?thesis
      unfolding f i o planResults_Cons(3)[of "own R" x ?I ?plan, OF none]
        planTasks_Cons(3)[where R="own R" and x=x and plan="?plan" and v="noUploadsResult s", OF none(1,3)] .
  qed
qed

lemma planTasks_plain:
  assumes "set objectPrototype \<subseteq> set I" "x \<in> set (planTasks plan I R xs)"
  shows "\<not> inheritedName x"
  using assms by (auto simp: planTasks_def inheritedName_def)

lemma fst_taskOf [simp]: "fst (taskOf pm store c) = c"
  by (simp add: taskOf_def)

lemma task_ids:
  "fst ` set (map (taskOf pm store) (planTasks plan I R xs)) = {c \<in> set xs. R c = None \<and> c \<notin> set I \<and> plan c}"
  by (auto simp: planTasks_def image_iff)

lemma task_playlist:
  assumes "(c, p) \<in> set (map (taskOf pm store) xs)" "(c, p') \<in> set (map (taskOf pm store) xs)"
  shows "p' = p"
  using assms by (auto simp: taskOf_def)

lemma detailTask_eq:
  "c \<noteq> ''__proto__'' \<Longrightarrow>
   detailTask E s (R, st, calls) (c, p) =
     (R\<lparr> own := (own R)(c \<mapsto> detailResult E s c p) \<rparr>,
      (case detailWrite E s c p of None \<Rightarrow> st | Some e \<Rightarrow> st(cacheKey c \<mapsto> e)),
      calls @ [detailCall E s (c, p)])"
  by (simp add: detailTask_def detailResult_def detailWrite_def detailCall_def detailOutcome_def Let_def
           assign_plain split: outcome.splits option.splits)

lemma detailOutcome_playlist: "detailOutcome E s c p = detailOutcome E s c p'"
  unfolding detailOutcome_def fetchJsonWithRetry_def by (rule snd_fetch_from_url)

lemma detailResult_playlist: "detailResult E s c p = detailResult E s c p'"
  unfolding detailResult_def detailOutcome_playlist[of E s c p p'] ..

lemma cacheKey_inj [simp]: "cacheKey a = cacheKey b \<longleftrightarrow> a = b"
  by (simp add: cacheKey_def)

lemma detailCall_inj: "DetailCall c p evs = detailCall E s t \<Longrightarrow> t = (c, p)"
  by (cases t) (simp add: detailCall_def)

lemma callSubjects_detailCall [simp]: "callSubjects (detailCall E s t) = {fst t}"
  by (simp add: detailCall_def)

lemma detailWrite_Some:
  "detailWrite E s c p \<noteq> None \<Longrightarrow> \<exists>d. detailOutcome E s c p = Json d \<and> storageSetError E c = None"
  by (auto simp: detailWrite_def split: outcome.splits option.splits)

lemma tasks_step:
  assumes "foldl (detailTask E s) (R, st, calls) (t # ts) = (R', st', calls')"
    "\<forall>t \<in> set (t # ts). fst t \<noteq> ''__proto__''"
  shows "foldl (detailTask E s)
           (R\<lparr> own := (own R)(fst t \<mapsto> detailResult E s (fst t) (snd t)) \<rparr>,
            (case detailWrite E s (fst t) (snd t) of None \<Rightarrow> st | Some e \<Rightarrow> st(cacheKey (fst t) \<mapsto> e)),
            calls @ [detailCall E s t]) ts = (R', st', calls')"
    and "\<forall>t \<in> set ts. fst t \<noteq> ''__proto__''"
proof -
  from assms(2) have "fst t \<noteq> ''__proto__''" by simp
  from detailTask_eq[OF this, of E s R st calls "snd t"] assms(1)
  show "foldl (detailTask E s)
           (R\<lparr> own := (own R)(fst t \<mapsto> detailResult E s (fst t) (snd t)) \<rparr>,
            (case detailWrite E s (fst t) (snd t) of None \<Rightarrow> st | Some e \<Rightarrow> st(cacheKey (fst t) \<mapsto> e)),
            calls @ [detailCall E s t]) ts = (R', st', calls')"
    by simp
  from assms(2) show "\<forall>t \<in> set ts. fst t \<noteq> ''__proto__''" by simp
qed

lemma tasks_results:
  "foldl (detailTask E s) (R, st, calls) ts = (R', st', calls') \<Longrightarrow>
   \<forall>t \<in> set ts. fst t \<noteq> ''__proto__'' \<Longrightarrow>
   own R' = (\<lambda>x. if x \<in> fst ` set ts then Some (detailResult E s x []) else own R x)"
proof (induction ts arbitrary: R st calls)
  case Nil
  then show ?case by simp
next
  case (Cons t ts)
  from Cons.IH[OF tasks_step[OF Cons.prems]] show ?case
    by (auto simp: fun_eq_iff detailResult_playlist[of E s "fst t" "snd t" "[]"])
qed

lemma tasks_calls:
  "foldl (detailTask E s) (R, st, calls) ts = (R', st', calls') \<Longrightarrow>
   \<forall>t \<in> set ts. fst t \<noteq> ''__proto__'' \<Longrightarrow>
   calls' = calls @ map (detailCall E s) ts"
proof (induction ts arbitrary: R st calls)
  case Nil
  then show ?case by simp
next
  case (Cons t ts)
  from Cons.IH[OF tasks_step[OF Cons.prems]] show ?case by simp
qed

lemma tasks_store_same:
  "foldl (detailTask E s) (R, st, calls) ts = (R', st', calls') \<Longrightarrow>
   \<forall>t \<in> set ts. fst t \<noteq> ''__proto__'' \<Longrightarrow>
   \<forall>c p. (c, p) \<in> set ts \<and> k = cacheKey c \<longrightarrow> detailWrite E s c p = None \<Longrightarrow>
   st' k = st k"
proof (induction ts arbitrary: R st calls)
  case Nil
  then show ?case by simp
next
  case (Cons t ts)
  let ?st1 = "case detailWrite E s (fst t) (snd t) of None \<Rightarrow> st | Some e \<Rightarrow> st(cacheKey (fst t) \<mapsto> e)"
  from Cons.prems(3) have "\<forall>c p. (c, p) \<in> set ts \<and> k = cacheKey c \<longrightarrow> detailWrite E s c p = None"
    by auto
  from Cons.IH[OF tasks_step[OF Cons.prems(1,2)] this] have "st' k = ?st1 k" .
  moreover from Cons.prems(3) have "k = cacheKey (fst t) \<longrightarrow> detailWrite E s (fst t) (snd t) = None"
    by (cases t) auto
  then have "?st1 k = st k" by (auto split: option.splits)
  ultimately show ?case by simp
qed

lemma tasks_store_written:
  "foldl (detailTask E s) (R, st, calls) ts = (R', st', calls') \<Longrightarrow>
   \<forall>t \<in> set ts. fst t \<noteq> ''__proto__'' \<Longrightarrow>
   (c, p) \<in> set ts \<Longrightarrow> \<forall>p'. (c, p') \<in> set ts \<longrightarrow> p' = p \<Longrightarrow>
   detailWrite E s c p = Some e \<Longrightarrow> st' (cacheKey c) = Some e"
proof (induction ts arbitrary: R st calls)
  case Nil
  then show ?case by simp
next
  case (Cons t ts)
  let ?st1 = "case detailWrite E s (fst t) (snd t) of None \<Rightarrow> st | Some e \<Rightarrow> st(cacheKey (fst t) \<mapsto> e)"
  note f = tasks_step[OF Cons.prems(1,2)]
  show ?case
  proof (cases "(c, p) \<in> set ts")
    case True
    from Cons.prems(4) have "\<forall>p'. (c, p') \<in> set ts \<longrightarrow> p' = p" by auto
    from Cons.IH[OF f True this Cons.prems(5)] show ?thesis .
  next
    case False
    with Cons.prems(3) have eq: "t = (c, p)" by auto
    from Cons.prems(4) False
    have "\<forall>c' p'. (c', p') \<in> set ts \<and> cacheKey c = cacheKey c' \<longrightarrow> detailWrite E s c' p' = None"
      by auto
    from tasks_store_same[OF f this] have "st' (cacheKey c) = ?st1 (cacheKey c)" .
    with eq Cons.prems(5) show ?thesis by simp
  qed
qed

lemma tasks_store_changed:
  assumes "foldl (detailTask E s) (R, st, calls) ts = (R', st', calls')"
    "\<forall>t \<in> set ts. fst t \<noteq> ''__proto__''" "st' k \<noteq> st k"
  shows "\<exists>c p. (c, p) \<in> set ts \<and> k = cacheKey c \<and> detailWrite E s c p \<noteq> None"
  using tasks_store_same[OF assms(1,2), of k] assms(3) by blast

subsection \<open>The scan as a whole\<close>

lemma scan_returns:
  assumes "1 \<le> concurrency s"
  shows "\<exists>res st calls. fetchLastUploadDates E store ids s b = Some (res, st, calls)"
proof -
  obtain R1 where s1: "foldl (fromCache E s b store) (emptyObject, []) ids = (R1, misses E s b store ids)"
    using step1 by blast
  have ok: "settleAll (\<lambda>task. Fulfilled ()) (foldl limit (createLimiter (concurrency s)) ts) \<noteq> None"
    for ts :: "(string \<times> string) list"
    using settleAll_scan[OF assms, of "\<lambda>task. Fulfilled ()" ts] by auto
  have "fetchLastUploadDates E store ids s b \<noteq> None"
    by (auto simp: fetchLastUploadDates_def s1 Let_def ok split: prod.splits option.splits)
  then show ?thesis by (metis not_Some_eq prod_cases3)
qed

lemma scan_run:
  assumes ret: "fetchLastUploadDates E store ids s b = Some (res, st, calls)"
  obtains pm I R2 R3 tasks Rf where
    "pm = foldl (recordChunk E s (needIds E s b store ids)) emptyObject
            [0..<nchunks (needIds E s b store ids)]"
    "R2 = foldl (markFailed E s (needIds E s b store ids)) (hits E s b store ids)
            [0..<nchunks (needIds E s b store ids)]"
    "set objectPrototype \<subseteq> set I" "''__proto__'' \<notin> set ids \<longrightarrow> I = objectPrototype"
    "R3 = planResults s (planned pm store) I R2 (missIds E s b store ids)"
    "tasks = map (taskOf pm store) (planTasks (planned pm store) I R2 (missIds E s b store ids))"
    "foldl (detailTask E s) (\<lparr> own = R3, inherited = I \<rparr>, store,
        map (batchCall E s (needIds E s b store ids)) [0..<nchunks (needIds E s b store ids)]) tasks
       = (Rf, st, calls)"
    "res = own Rf"
proof -
  let ?M = "misses E s b store ids"
  let ?need = "needIds E s b store ids" and ?miss = "missIds E s b store ids"
  obtain R1 where s1: "foldl (fromCache E s b store) (emptyObject, []) ids = (R1, ?M)"
    and k1: "keeper R1" and o1: "own R1 = hits E s b store ids"
    and i1: "''__proto__'' \<notin> set ids \<longrightarrow> inherited R1 = objectPrototype"
    using step1 by blast
  obtain pm R2o calls2 where
    s2: "resolvePlaylistIds E s ?need (50 * 0) (emptyObject, R1, []) = (pm, R2o, calls2)"
    by (cases "resolvePlaylistIds E s ?need (50 * 0) (emptyObject, R1, [])") auto
  from resolve_fold[OF k1 s2]
  have pm: "pm = foldl (recordChunk E s ?need) emptyObject [0..<nchunks ?need]"
    and k2: "keeper R2o"
    and o2: "own R2o = foldl (markFailed E s ?need) (hits E s b store ids) [0..<nchunks ?need]"
    and c2: "calls2 = map (batchCall E s ?need) [0..<nchunks ?need]"
    and i2: "''__proto__'' \<notin> set ?need \<longrightarrow> inherited R2o = inherited R1"
    by (simp_all add: o1)
  define I where "I = inherited R2o"
  from k2 have sub: "set objectPrototype \<subseteq> set I" by (simp add: keeper_def I_def)
  have plain: "''__proto__'' \<notin> set ids \<longrightarrow> I = objectPrototype"
  proof
    assume p: "''__proto__'' \<notin> set ids"
    with set_needIds[of E s b store ids] set_missIds[of E s b store ids]
    have "''__proto__'' \<notin> set ?need" by blast
    with i1 i2 p show "I = objectPrototype" by (simp add: I_def)
  qed
  let ?R3 = "planResults s (planned pm store) I (own R2o) ?miss"
  let ?tasks = "map (taskOf pm store) (planTasks (planned pm store) I (own R2o) ?miss)"
  from plan_fold[OF k2, of s pm "[]" store ?miss] obtain R3o where
    s3: "foldl (planDetail s pm) (R2o, []) ?M = (R3o, ?tasks)"
    and i3: "inherited R3o = I" and o3: "own R3o = ?R3"
    unfolding misses_missIds I_def by auto
  from i3 o3 have r3: "R3o = \<lparr> own = ?R3, inherited = I \<rparr>" by (cases R3o) simp
  have "\<exists>Rf. foldl (detailTask E s) (R3o, store, calls2) ?tasks = (Rf, st, calls) \<and> res = own Rf"
  proof (cases "?M = []")
    case True
    then have m: "?miss = []" by (simp add: misses_missIds)
    then have n: "?need = []" by (simp add: needIds_def)
    from True ret have "res = own R1" "st = store" "calls = []"
      by (auto simp: fetchLastUploadDates_def s1)
    moreover have "own R2o = own R1" "calls2 = []" using o2 c2 n o1 by (simp_all add: nchunks_def)
    moreover have "?R3 = own R2o" using m by (auto simp: planResults_def fun_eq_iff)
    moreover have "?tasks = []" using m by (simp add: planTasks_def)
    ultimately show ?thesis using o3 by simp
  next
    case False
    from s2 have s2': "resolvePlaylistIds E s ?need 0 (emptyObject, R1, []) = (pm, R2o, calls2)" by simp
    from ret False obtain order L Rf where
      o: "settleAll (\<lambda>task. Fulfilled ()) (foldl limit (createLimiter (concurrency s)) ?tasks)
            = Some (order, L)"
      and r: "foldl (detailTask E s) (R3o, store, calls2) order = (Rf, st, calls)"
      and e: "res = own Rf"
      by (auto simp: fetchLastUploadDates_def s1 Let_def need_of_misses s2' s3
               split: option.splits prod.splits)
    from settleAll_order[OF o] r e show ?thesis by auto
  qed
  then obtain Rf where "foldl (detailTask E s) (\<lparr> own = ?R3, inherited = I \<rparr>, store,
        map (batchCall E s ?need) [0..<nchunks ?need]) ?tasks = (Rf, st, calls)" "res = own Rf"
    unfolding r3 c2 by blast
  with pm o2 sub plain show ?thesis by (intro that[of pm _ I _ _ Rf]) auto
qed

lemma scan_facts:
  assumes ret: "fetchLastUploadDates E store ids s b = Some (res, st, calls)"
  obtains pm I R2 tasks where
    "pm = foldl (recordChunk E s (needIds E s b store ids)) emptyObject
            [0..<nchunks (needIds E s b store ids)]"
    "R2 = foldl (markFailed E s (needIds E s b store ids)) (hits E s b store ids)
            [0..<nchunks (needIds E s b store ids)]"
    "set objectPrototype \<subseteq> set I" "''__proto__'' \<notin> set ids \<longrightarrow> I = objectPrototype"
    "tasks = map (taskOf pm store) (planTasks (planned pm store) I R2 (missIds E s b store ids))"
    "res = (\<lambda>x. if x \<in> fst ` set tasks then Some (detailResult E s x [])
                else planResults s (planned pm store) I R2 (missIds E s b store ids) x)"
    "calls = map (batchCall E s (needIds E s b store ids)) [0..<nchunks (needIds E s b store ids)]
             @ map (detailCall E s) tasks"
    "\<And>k. (\<forall>c p. (c, p) \<in> set tasks \<and> k = cacheKey c \<longrightarrow> detailWrite E s c p = None) \<Longrightarrow> st k = store k"
    "\<And>c p e. (c, p) \<in> set tasks \<Longrightarrow> detailWrite E s c p = Some e \<Longrightarrow> st (cacheKey c) = Some e"
proof -
  let ?need = "needIds E s b store ids" and ?miss = "missIds E s b store ids"
  from ret obtain pm I R2 R3 tasks Rf where
    pm: "pm = foldl (recordChunk E s ?need) emptyObject [0..<nchunks ?need]" and
    R2: "R2 = foldl (markFailed E s ?need) (hits E s b store ids) [0..<nchunks ?need]" and
    sub: "set objectPrototype \<subseteq> set I" and plain: "''__proto__'' \<notin> set ids \<longrightarrow> I = objectPrototype" and
    R3: "R3 = planResults s (planned pm store) I R2 ?miss" and
    tasks: "tasks = map (taskOf pm store) (planTasks (planned pm store) I R2 ?miss)" and
    run: "foldl (detailTask E s) (\<lparr> own = R3, inherited = I \<rparr>, store,
            map (batchCall E s ?need) [0..<nchunks ?need]) tasks = (Rf, st, calls)" and
    res: "res = own Rf"
    by (rule scan_run)
  have np: "\<forall>t \<in> set tasks. fst t \<noteq> ''__proto__''"
  proof
    fix t assume "t \<in> set tasks"
    then have "fst t \<in> set (planTasks (planned pm store) I R2 ?miss)" unfolding tasks by auto
    from inheritedName_proto[OF planTasks_plain[OF sub this]] show "fst t \<noteq> ''__proto__''" .
  qed
  have r: "res = (\<lambda>x. if x \<in> fst ` set tasks then Some (detailResult E s x [])
                else planResults s (planned pm store) I R2 ?miss x)"
    unfolding res using tasks_results[OF run np] by (simp add: R3 cong: if_cong)
  have c: "calls = map (batchCall E s ?need) [0..<nchunks ?need] @ map (detailCall E s) tasks"
    by (rule tasks_calls[OF run np])
  have same: "st k = store k"
    if "\<forall>c p. (c, p) \<in> set tasks \<and> k = cacheKey c \<longrightarrow> detailWrite E s c p = None" for k
    using tasks_store_same[OF run np that] .
  have written: "st (cacheKey c) = Some e" if t: "(c, p) \<in> set tasks" and w: "detailWrite E s c p = Some e"
    for c p e
  proof -
    have u: "\<forall>p'. (c, p') \<in> set tasks \<longrightarrow> p' = p"
      using t task_playlist unfolding tasks by blast
    from tasks_store_written[OF run np t u w] show ?thesis .
  qed
  from pm R2 sub plain tasks r c same written show ?thesis by (rule that)
qed

lemma scan_tasks:
  assumes ret: "fetchLastUploadDates E store ids s b = Some (res, st, calls)"
  obtains tasks where
    "\<And>c p evs. DetailCall c p evs \<in> set calls \<Longrightarrow> (c, p) \<in> set tasks"
    "\<And>c p. (c, p) \<in> set tasks \<Longrightarrow>
        DetailCall c p (fst (fetchJsonWithRetry (playlistItemsAnswer E c) (detailUrl s p))) \<in> set calls"
    "\<And>c p. (c, p) \<in> set tasks \<Longrightarrow> res c = Some (detailResult E s c p)"
    "\<And>k. (\<forall>c p. (c, p) \<in> set tasks \<and> k = cacheKey c \<longrightarrow> detailWrite E s c p = None) \<Longrightarrow> st k = store k"
    "\<And>c p e. (c, p) \<in> set tasks \<Longrightarrow> detailWrite E s c p = Some e \<Longrightarrow> st (cacheKey c) = Some e"
  using ret
proof (rule scan_facts)
  fix pm I R2 tasks
  assume res: "res = (\<lambda>x. if x \<in> fst ` set tasks then Some (detailResult E s x [])
                else planResults s (planned pm store) I R2 (missIds E s b store ids) x)"
    and calls: "calls = map (batchCall E s (needIds E s b store ids)) [0..<nchunks (needIds E s b store ids)]
             @ map (detailCall E s) tasks"
    and same: "\<And>k. (\<forall>c p. (c, p) \<in> set tasks \<and> k = cacheKey c \<longrightarrow> detailWrite E s c p = None) \<Longrightarrow> st k = store k"
    and written: "\<And>c p e. (c, p) \<in> set tasks \<Longrightarrow> detailWrite E s c p = Some e \<Longrightarrow> st (cacheKey c) = Some e"
  have a: "(c, p) \<in> set tasks" if "DetailCall c p evs \<in> set calls" for c p evs
  proof -
    from that calls have "DetailCall c p evs \<in> detailCall E s ` set tasks"
      by (auto simp: batchCall_def)
    then show ?thesis by (auto dest: detailCall_inj)
  qed
  have b: "DetailCall c p (fst (fetchJsonWithRetry (playlistItemsAnswer E c) (detailUrl s p))) \<in> set calls"
    if "(c, p) \<in> set tasks" for c p
  proof -
    from that have "detailCall E s (c, p) \<in> set calls" unfolding calls by simp
    then show ?thesis by (simp add: detailCall_def)
  qed
  have r: "res c = Some (detailResult E s c p)" if "(c, p) \<in> set tasks" for c p
  proof -
    from that have "c \<in> fst ` set tasks" by force
    then have "res c = Some (detailResult E s c [])" by (simp add: res)
    then show ?thesis using detailResult_playlist[of E s c "[]" p] by simp
  qed
  from a b r same written show ?thesis by (rule that)
qed

lemma store_changes:
  assumes ret: "fetchLastUploadDates E store ids s b = Some (res, st, calls)"
    and k: "st k \<noteq> store k"
  shows "\<exists>c p evs d. k = cacheKey c \<and> DetailCall c p evs \<in> set calls
           \<and> detailOutcome E s c p = Json d \<and> storageSetError E c = None"
  using ret
proof (rule scan_tasks)
  fix tasks
  assume b: "\<And>c p. (c, p) \<in> set tasks \<Longrightarrow>
        DetailCall c p (fst (fetchJsonWithRetry (playlistItemsAnswer E c) (detailUrl s p))) \<in> set calls"
    and same: "\<And>k. (\<forall>c p. (c, p) \<in> set tasks \<and> k = cacheKey c \<longrightarrow> detailWrite E s c p = None) \<Longrightarrow> st k = store k"
  from same[of k] k obtain c p where
    m: "(c, p) \<in> set tasks" and kc: "k = cacheKey c" and wr: "detailWrite E s c p \<noteq> None"
    by blast
  from b[OF m] detailWrite_Some[OF wr] kc show ?thesis by blast
qed


lemma scan_domain:
  assumes ret: "fetchLastUploadDates E store ids s b = Some (res, st, calls)"
    and plain: "\<forall>c \<in> set ids. \<not> inheritedName c"
  shows "dom res = set ids"
  using ret
proof (rule scan_facts)
  let ?need = "needIds E s b store ids" and ?miss = "missIds E s b store ids"
  fix pm I R2 tasks
  assume R2: "R2 = foldl (markFailed E s ?need) (hits E s b store ids) [0..<nchunks ?need]"
    and I: "''__proto__'' \<notin> set ids \<longrightarrow> I = objectPrototype"
    and tasks: "tasks = map (taskOf pm store) (planTasks (planned pm store) I R2 ?miss)"
    and res: "res = (\<lambda>x. if x \<in> fst ` set tasks then Some (detailResult E s x [])
                else planResults s (planned pm store) I R2 ?miss x)"
  from plain have "''__proto__'' \<notin> set ids" using inheritedName_proto by blast
  with I have I: "I = objectPrototype" by simp
  have ids: "fst ` set tasks = {c \<in> set ?miss. R2 c = None \<and> c \<notin> set I \<and> planned pm store c}"
    unfolding tasks by (rule task_ids)
  have inside: "res x \<noteq> None" if x: "x \<in> set ids" for x
  proof (cases "R2 x = None")
    case False
    then show ?thesis by (simp add: res planResults_def)
  next
    case True
    from x plain have ni: "x \<notin> set I" and np: "x \<noteq> ''__proto__''"
      using inheritedName_proto by (auto simp: I inheritedName_def)
    have "\<not> cacheHit E s b store x"
    proof
      assume h: "cacheHit E s b store x"
      then obtain e where "store (cacheKey x) = Some e" using cacheHit_Some by blast
      with h x np have "hits E s b store ids x \<noteq> None" by (simp add: hits_def)
      then have "R2 x \<noteq> None" unfolding R2 by (rule markFailed_fold_kept)
      with True show False by simp
    qed
    with x have m: "x \<in> set ?miss" by (simp add: set_missIds)
    show ?thesis
    proof (cases "planned pm store x")
      case True
      with m ni \<open>R2 x = None\<close> have "x \<in> fst ` set tasks" by (simp add: ids)
      then show ?thesis by (simp add: res)
    next
      case False
      with m ni \<open>R2 x = None\<close> show ?thesis by (simp add: res planResults_def)
    qed
  qed
  have outside: "res x = None" if x: "x \<notin> set ids" for x
  proof -
    from x have m: "x \<notin> set ?miss" by (simp add: set_missIds)
    with set_needIds have "x \<notin> set ?need" by blast
    then have "R2 x = hits E s b store ids x" unfolding R2 by (rule markFailed_fold_outside)
    with x have "R2 x = None" by (simp add: hits_def)
    moreover from m have "x \<notin> fst ` set tasks" by (simp add: ids)
    ultimately show ?thesis using m by (simp add: res planResults_def)
  qed
  show ?thesis
  proof (rule set_eqI)
    fix x
    from inside[of x] outside[of x] show "x \<in> dom res \<longleftrightarrow> x \<in> set ids"
      by (cases "x \<in> set ids") (auto simp: dom_def)
  qed
qed

lemma hit_kept:
  assumes ret: "fetchLastUploadDates E store ids s b = Some (res, st, calls)"
    and c: "c \<in> set ids" and np: "c \<noteq> ''__proto__''"
    and hit: "cacheHit E s b store c" and e: "store (cacheKey c) = Some e"
  shows "res c = Some (cachedResult E s c e) \<and> (\<forall>k \<in> set calls. c \<notin> callSubjects k)
         \<and> st (cacheKey c) = Some e"
  using ret
proof (rule scan_facts)
  let ?need = "needIds E s b store ids" and ?miss = "missIds E s b store ids"
  fix pm I R2 tasks
  assume R2: "R2 = foldl (markFailed E s ?need) (hits E s b store ids) [0..<nchunks ?need]"
    and tasks: "tasks = map (taskOf pm store) (planTasks (planned pm store) I R2 ?miss)"
    and res: "res = (\<lambda>x. if x \<in> fst ` set tasks then Some (detailResult E s x [])
                else planResults s (planned pm store) I R2 ?miss x)"
    and calls: "calls = map (batchCall E s ?need) [0..<nchunks ?need] @ map (detailCall E s) tasks"
    and same: "\<And>k. (\<forall>c p. (c, p) \<in> set tasks \<and> k = cacheKey c \<longrightarrow> detailWrite E s c p = None) \<Longrightarrow> st k = store k"
  from hit have nm: "c \<notin> set ?miss" by (simp add: set_missIds)
  with set_needIds have nn: "c \<notin> set ?need" by blast
  have "R2 c = hits E s b store ids c" unfolding R2 by (rule markFailed_fold_outside[OF nn])
  also have "\<dots> = Some (cachedResult E s c e)" using c np hit e by (simp add: hits_def)
  finally have r2: "R2 c = Some (cachedResult E s c e)" .
  have nt: "c \<notin> fst ` set tasks" unfolding tasks task_ids using nm by simp
  from nt r2 have r: "res c = Some (cachedResult E s c e)" by (simp add: res planResults_def)
  have "\<forall>k \<in> set calls. c \<notin> callSubjects k"
  proof
    fix k assume "k \<in> set calls"
    with calls consider j where "k = batchCall E s ?need j"
      | t where "t \<in> set tasks" "k = detailCall E s t" by auto
    then show "c \<notin> callSubjects k"
    proof cases
      case 1
      with callSubjects_batchCall[of E s ?need j] nn show ?thesis by blast
    next
      case 2
      with nt show ?thesis by auto
    qed
  qed
  moreover have "st (cacheKey c) = store (cacheKey c)"
  proof (rule same, intro allI impI)
    fix c' p' assume "(c', p') \<in> set tasks \<and> cacheKey c = cacheKey c'"
    then have "c \<in> fst ` set tasks" by force
    with nt show "detailWrite E s c' p' = None" by simp
  qed
  ultimately show ?thesis using r e by simp
qed



lemma manyIds_distinct: "distinct manyIds"
  unfolding manyIds_def
proof (rule distinct_map[THEN iffD2], intro conjI inj_onI)
  show "distinct [0..<120]" by simp
next
  fix n m :: nat
  assume "''UC'' @ replicate n (CHR ''x'') = ''UC'' @ replicate m (CHR ''x'')"
  then have "length (replicate n (CHR ''x'')) = length (replicate m (CHR ''x''))" by simp
  then show "n = m" by simp
qed

lemma manyIds_chunks:
  "take 50 manyIds = map (\<lambda>n. ''UC'' @ replicate n (CHR ''x'')) [0..<50]"
  "take 50 (drop 50 manyIds) = map (\<lambda>n. ''UC'' @ replicate n (CHR ''x'')) [50..<100]"
  "drop 100 manyIds = map (\<lambda>n. ''UC'' @ replicate n (CHR ''x'')) [100..<120]"
  by (simp_all add: manyIds_def take_map drop_map)

lemma manyIds_plain: "\<forall>c \<in> set manyIds. \<not> inheritedName c"
  by (auto simp: manyIds_def intro!: channel_id_not_inherited)

lemma fetch_first_events:
  "\<not> rateLimited (net 0) \<Longrightarrow> fst (fetchJsonWithRetry net u) = [Fetch u]"
  using fetch_shape[of 0 net u] by simp

lemma batch_stage:
  assumes ret: "fetchLastUploadDates E store ids s b = Some (res, st, calls)"
    and plain: "\<forall>c \<in> set ids. \<not> inheritedName c"
    and miss: "\<forall>c \<in> set ids. \<not> cacheHit E s b store c \<and> cachedPlaylistId store c = None"
    and d: "distinct ids"
  shows "batchCalls calls = map (batchCall E s ids) [0..<nchunks ids]"
    and "take (nchunks ids) calls = batchCalls calls"
    and "k < nchunks ids \<Longrightarrow> c \<in> set (chunk ids k) \<Longrightarrow> thrownBy (batchOutcome E s ids k) = Some e \<Longrightarrow>
           res c = Some (errorResult s e) \<and> (\<forall>p evs. DetailCall c p evs \<notin> set calls)"
    and "k < nchunks ids \<Longrightarrow> c \<in> set (chunk ids k) \<Longrightarrow> thrownBy (batchOutcome E s ids k) = None \<Longrightarrow>
           resolvedHandle E s ids c = Some p \<Longrightarrow> p \<noteq> [] \<Longrightarrow>
           DetailCall c p (fst (fetchJsonWithRetry (playlistItemsAnswer E c) (detailUrl s p))) \<in> set calls
           \<and> res c = Some (detailResult E s c p)"
    and "k < nchunks ids \<Longrightarrow> c \<in> set (chunk ids k) \<Longrightarrow> thrownBy (batchOutcome E s ids k) = None \<Longrightarrow>
           \<not> truthy (resolvedHandle E s ids c) \<Longrightarrow>
           (\<forall>p evs. DetailCall c p evs \<notin> set calls) \<and> res c = Some (noUploadsResult s)"
proof -
  from miss have miss': "\<forall>c \<in> set ids. \<not> cacheHit E s b store c \<and> \<not> truthy (cachedPlaylistId store c)"
    by (simp add: truthy_def)
  note am = all_missing[OF miss']
  from plain have np: "''__proto__'' \<notin> set ids" using inheritedName_proto by blast
  from ret obtain pm I R2 tasks where
    pm: "pm = foldl (recordChunk E s (needIds E s b store ids)) emptyObject
            [0..<nchunks (needIds E s b store ids)]" and
    R2: "R2 = foldl (markFailed E s (needIds E s b store ids)) (hits E s b store ids)
              [0..<nchunks (needIds E s b store ids)]" and
    I: "''__proto__'' \<notin> set ids \<longrightarrow> I = objectPrototype" and
    tasks: "tasks = map (taskOf pm store) (planTasks (planned pm store) I R2 (missIds E s b store ids))" and
    res: "res = (\<lambda>x. if x \<in> fst ` set tasks then Some (detailResult E s x [])
                else planResults s (planned pm store) I R2 (missIds E s b store ids) x)" and
    calls: "calls = map (batchCall E s (needIds E s b store ids)) [0..<nchunks (needIds E s b store ids)]
             @ map (detailCall E s) tasks"
    by (rule scan_facts)
  note pm = pm[unfolded am] and R2 = R2[unfolded am] and tasks = tasks[unfolded am]
    and res = res[unfolded am] and calls = calls[unfolded am]
  from I np have I: "I = objectPrototype" by simp
  have ids: "fst ` set tasks = {c \<in> set ids. R2 c = None \<and> c \<notin> set I \<and> planned pm store c}"
    unfolding tasks by (rule task_ids)
  have mem: "DetailCall c p evs \<in> set calls \<Longrightarrow> (c, p) \<in> set tasks" for c p evs
  proof -
    assume "DetailCall c p evs \<in> set calls"
    then have "DetailCall c p evs \<in> set (map (detailCall E s) tasks)"
      unfolding calls by (auto simp: batchCall_def)
    then obtain t where "t \<in> set tasks" "DetailCall c p evs = detailCall E s t" by auto
    then show "(c, p) \<in> set tasks" using detailCall_inj by blast
  qed
  have nodet: "\<forall>p evs. DetailCall c p evs \<notin> set calls" if "c \<notin> fst ` set tasks" for c
  proof (intro allI notI)
    fix p evs assume "DetailCall c p evs \<in> set calls"
    from mem[OF this] that show False by force
  qed
  have handle: "plannedPlaylist pm (c, cachedPlaylistId store c) = resolvedHandle E s ids c"
    if "c \<in> set ids" for c
  proof -
    from that miss have "cachedPlaylistId store c = None" by simp
    moreover from that np have "c \<noteq> ''__proto__''" by auto
    ultimately show ?thesis unfolding pm by (simp add: resolved_handle)
  qed
  show "batchCalls calls = map (batchCall E s ids) [0..<nchunks ids]"
    unfolding calls by (simp add: batchCalls_append batchCalls_batch batchCalls_detail)
  then show "take (nchunks ids) calls = batchCalls calls"
    unfolding calls by simp
  {
    assume k: "k < nchunks ids" and c: "c \<in> set (chunk ids k)"
      and e: "thrownBy (batchOutcome E s ids k) = Some e"
    from c set_chunk have cin: "c \<in> set ids" by blast
    with np have cp: "c \<noteq> ''__proto__''" by auto
    have r2: "R2 c = Some (errorResult s e)"
      unfolding R2 by (rule markFailed_fold_failed[OF d _ _ c cp e]) (use k in simp_all)
    then have nt: "c \<notin> fst ` set tasks" by (simp add: ids)
    with r2 have "res c = Some (errorResult s e)" by (simp add: res planResults_def)
    with nodet[OF nt]
    show "res c = Some (errorResult s e) \<and> (\<forall>p evs. DetailCall c p evs \<notin> set calls)" by simp
  }
  {
    assume k: "k < nchunks ids" and c: "c \<in> set (chunk ids k)"
      and e: "thrownBy (batchOutcome E s ids k) = None"
    have "R2 c = Map.empty c" unfolding R2 by (rule markFailed_fold_passed[OF d c e])
    then have r2: "R2 c = None" by simp
    from c set_chunk have cin: "c \<in> set ids" by blast
    with plain have ni: "c \<notin> set I" by (auto simp: I inheritedName_def)
    {
      assume h: "resolvedHandle E s ids c = Some p" and p: "p \<noteq> []"
      from h p handle[OF cin] have pl: "planned pm store c" by (simp add: planned_def truthy_def)
      with r2 ni cin have "c \<in> set (planTasks (planned pm store) I R2 ids)"
        by (simp add: planTasks_def)
      moreover have "taskOf pm store c = (c, p)" using h handle[OF cin] by (simp add: taskOf_def)
      ultimately have t: "(c, p) \<in> set tasks" unfolding tasks by force
      then have "detailCall E s (c, p) \<in> set calls" unfolding calls by simp
      then have "DetailCall c p (fst (fetchJsonWithRetry (playlistItemsAnswer E c) (detailUrl s p))) \<in> set calls"
        by (simp add: detailCall_def)
      moreover from t have "c \<in> fst ` set tasks" by force
      then have "res c = Some (detailResult E s c [])" by (simp add: res)
      then have "res c = Some (detailResult E s c p)"
        using detailResult_playlist[of E s c "[]" p] by simp
      ultimately show "DetailCall c p (fst (fetchJsonWithRetry (playlistItemsAnswer E c) (detailUrl s p))) \<in> set calls
           \<and> res c = Some (detailResult E s c p)" ..
    }
    {
      assume h: "\<not> truthy (resolvedHandle E s ids c)"
      with handle[OF cin] have pl: "\<not> planned pm store c" by (simp add: planned_def)
      with ids have nt: "c \<notin> fst ` set tasks" by simp
      with r2 ni cin pl have "res c = Some (noUploadsResult s)" by (simp add: res planResults_def)
      with nodet[OF nt]
      show "(\<forall>p evs. DetailCall c p evs \<notin> set calls) \<and> res c = Some (noUploadsResult s)" by simp
    }
  }
qed

section \<open>Properties of the scan\<close>

text \<open>
  An identifier that names a property of \<^verbatim>\<open>Object.prototype\<close> is \<^verbatim>\<open>in results\<close> from the
  start: step 3 skips it, and it gets no entry. Such identifiers are outside the domain of
  the scan, whose identifiers are channel ids.
\<close>

lemma inherited_name_skipped:
  "map_option (\<lambda>r. fst r ''constructor'')
     (fetchLastUploadDates exampleEnv Map.empty [''constructor''] exampleSettings False) = Some None"
  by code_simp

text \<open>
  C1. Let no identifier of the list name a property of \<^verbatim>\<open>Object.prototype\<close> (no channel
  id does). With a capacity of at least 1 (the settings allow 1 to 20) the scan returns,
  and the map it returns has an entry for exactly the identifiers submitted: one entry,
  with one of the four statuses, for each identifier of the list, and none for any other
  identifier. This holds for every such list, empty or not, with or without repetitions.
\<close>

theorem scan_covers_every_id:
  assumes "1 \<le> concurrency s" "\<forall>c \<in> set channelIds. \<not> inheritedName c"
  shows "\<exists>res st calls.
           fetchLastUploadDates E store channelIds s bypassCache = Some (res, st, calls)
           \<and> dom res = set channelIds
           \<and> (\<forall>c \<in> set channelIds. \<exists>r. res c = Some r
                 \<and> r_status r \<in> {Ok, NoUploads, ApiError, QuotaExceeded})"
proof -
  from scan_returns[OF assms(1), of E store channelIds bypassCache] obtain res st calls where
    r: "fetchLastUploadDates E store channelIds s bypassCache = Some (res, st, calls)" by blast
  from scan_domain[OF r assms(2)] have d: "dom res = set channelIds" .
  have "\<forall>c \<in> set channelIds. \<exists>r. res c = Some r \<and> r_status r \<in> {Ok, NoUploads, ApiError, QuotaExceeded}"
  proof
    fix c assume "c \<in> set channelIds"
    with d obtain r where "res c = Some r" by blast
    moreover have "r_status r \<in> {Ok, NoUploads, ApiError, QuotaExceeded}"
      by (cases "r_status r") auto
    ultimately show "\<exists>r. res c = Some r \<and> r_status r \<in> {Ok, NoUploads, ApiError, QuotaExceeded}" by blast
  qed
  with r d show ?thesis by blast
qed

theorem scan_covers_every_id_witness:
  "\<exists>res st calls.
     fetchLastUploadDates exampleEnv Map.empty [''UCa'', ''UCb''] exampleSettings False = Some (res, st, calls)
     \<and> dom res = {''UCa'', ''UCb''}"
proof -
  have "\<forall>c \<in> set [''UCa'', ''UCb'']. \<not> inheritedName c"
    by (auto intro!: channel_id_not_inherited)
  from scan_covers_every_id[of exampleSettings "[''UCa'', ''UCb'']" exampleEnv Map.empty False, OF _ this]
  show ?thesis by (auto simp: exampleSettings_def)
qed

text \<open>
  C2. The code reads \<^verbatim>\<open>videoPublishedAt\<close> only. For a detail answer whose first item
  carries a \<^verbatim>\<open>publishedAt\<close> and no \<^verbatim>\<open>videoPublishedAt\<close>, the extracted timestamp is
  \<^verbatim>\<open>null\<close> and the status \<^verbatim>\<open>no_uploads\<close>: the fallback announced by the comment above
  the extraction is not there.
\<close>

theorem fallback_field_not_used:
  "extractLastUploadAt
     \<lparr> items = Some [\<lparr> videoPublishedAt = None, publishedAt = Some ''2020-05-01T10:00:00Z'' \<rparr>] \<rparr> = None
   \<and> r_status (timedResult s
        (extractLastUploadAt
           \<lparr> items = Some [\<lparr> videoPublishedAt = None, publishedAt = Some ''2020-05-01T10:00:00Z'' \<rparr>] \<rparr>)
        days) = NoUploads"
  by (simp add: extractLastUploadAt_def timedResult_def truthy_def)

text \<open>
  C5. A cache entry carries the time of its last check: the scan writes \<^verbatim>\<open>Date.now()\<close>
  there, never 0. For an identifier of the list with such an entry, younger than the time
  to live, a scan with \<^verbatim>\<open>bypassCache = false\<close> (and a capacity of at least 1, so that it
  returns) makes no call that concerns the identifier, neither a batch call with it in the
  batch nor a detail call for it, leaves its cache entry as it is, and builds its result
  from the cache: the cached timestamp and the threshold of the settings; status
  \<^verbatim>\<open>no_uploads\<close> and no \<^verbatim>\<open>daysAgo\<close> when the timestamp is \<^verbatim>\<open>null\<close>; status \<^verbatim>\<open>ok\<close>
  when it is a string (not the empty one, which no answer of the API carries), with
  \<^verbatim>\<open>daysAgo\<close> the whole days between the timestamp and the clock (read at the call of
  \<^verbatim>\<open>daysAgo\<close>), or NaN when the string does not parse as a date.
\<close>

theorem fresh_entry_served_from_cache:
  assumes "store (cacheKey c) = Some e" "lastCheckedAt e \<noteq> 0"
    "now E (IsFresh c) - lastCheckedAt e < cacheTtlHours s * 3600000"
    "c \<in> set channelIds" "\<not> inheritedName c" "1 \<le> concurrency s"
  shows "\<exists>res st calls r.
           fetchLastUploadDates E store channelIds s False = Some (res, st, calls)
           \<and> (\<forall>k \<in> set calls. c \<notin> callSubjects k)
           \<and> st (cacheKey c) = Some e
           \<and> res c = Some r
           \<and> r_lastUploadAt r = lastUploadAt e
           \<and> r_thresholdDays r = thresholdDays s
           \<and> (lastUploadAt e = None \<longrightarrow> r_status r = NoUploads \<and> r_daysAgo r = None)
           \<and> (\<forall>T. lastUploadAt e = Some T \<and> T \<noteq> [] \<longrightarrow>
                 r_status r = Ok
                 \<and> r_daysAgo r = Some (case getTime E T of
                                         None \<Rightarrow> NaN
                                       | Some t \<Rightarrow> Num ((now E (DaysAgoCached c) - t) div 86400000)))"
proof -
  from scan_returns[OF assms(6), of E store channelIds False] obtain res st calls where
    ret: "fetchLastUploadDates E store channelIds s False = Some (res, st, calls)"
    by blast
  have hit: "cacheHit E s False store c"
    using assms(1-3) by (simp add: cacheHit_def isFresh_def)
  from hit_kept[OF ret assms(4) inheritedName_proto[OF assms(5)] hit assms(1)]
  have res: "res c = Some (cachedResult E s c e)" and calls: "\<forall>k \<in> set calls. c \<notin> callSubjects k"
    and st: "st (cacheKey c) = Some e"
    by simp_all
  let ?r = "cachedResult E s c e"
  have "r_lastUploadAt ?r = lastUploadAt e" "r_thresholdDays ?r = thresholdDays s"
    by (simp_all add: cachedResult_def timedResult_def)
  moreover have "lastUploadAt e = None \<longrightarrow> r_status ?r = NoUploads \<and> r_daysAgo ?r = None"
    by (simp add: cachedResult_def timedResult_def truthy_def daysAgo_def)
  moreover have "\<forall>T. lastUploadAt e = Some T \<and> T \<noteq> [] \<longrightarrow>
                 r_status ?r = Ok
                 \<and> r_daysAgo ?r = Some (case getTime E T of
                                         None \<Rightarrow> NaN
                                       | Some t \<Rightarrow> Num ((now E (DaysAgoCached c) - t) div 86400000))"
    by (simp add: cachedResult_def timedResult_def truthy_def daysAgo_def split: option.splits)
  ultimately show ?thesis using ret res calls st
    by (intro exI[of _ res] exI[of _ st] exI[of _ calls] exI[of _ ?r] conjI)
qed

theorem fresh_entry_served_from_cache_witness:
  "\<exists>res st calls.
     fetchLastUploadDates exampleEnv
        [cacheKey ''UCa'' \<mapsto> \<lparr> uploadsPlaylistId = Some ''UUa'',
            lastUploadAt = Some ''2023-11-04T22:13:20Z'', lastCheckedAt = 1699990000000 \<rparr>]
        [''UCa''] exampleSettings False = Some (res, st, calls)
     \<and> calls = []
     \<and> map_option r_status (res ''UCa'') = Some Ok
     \<and> map_option r_daysAgo (res ''UCa'') = Some (Some (Num 10))"
proof -
  let ?e = "\<lparr> uploadsPlaylistId = Some ''UUa'',
            lastUploadAt = Some ''2023-11-04T22:13:20Z'', lastCheckedAt = 1699990000000 \<rparr>"
  have h: "[cacheKey ''UCa'' \<mapsto> ?e] (cacheKey ''UCa'') = Some ?e" "lastCheckedAt ?e \<noteq> 0"
    "now exampleEnv (IsFresh ''UCa'') - lastCheckedAt ?e < cacheTtlHours exampleSettings * 3600000"
    "''UCa'' \<in> set [''UCa'']" "\<not> inheritedName ''UCa''" "1 \<le> concurrency exampleSettings"
    by (simp_all add: exampleEnv_def exampleSettings_def channel_id_not_inherited)
  from fresh_entry_served_from_cache[where store="[cacheKey ''UCa'' \<mapsto> ?e]" and c="''UCa''" and e="?e"
      and E=exampleEnv and s=exampleSettings and channelIds="[''UCa'']", OF h]
  obtain res st calls r where
    ret: "fetchLastUploadDates exampleEnv [cacheKey ''UCa'' \<mapsto> ?e] [''UCa''] exampleSettings False
             = Some (res, st, calls)"
    and r: "res ''UCa'' = Some r"
    and ok: "\<forall>T. lastUploadAt ?e = Some T \<and> T \<noteq> [] \<longrightarrow>
                 r_status r = Ok
                 \<and> r_daysAgo r = Some (case getTime exampleEnv T of
                                         None \<Rightarrow> NaN
                                       | Some t \<Rightarrow> Num ((now exampleEnv (DaysAgoCached ''UCa'') - t) div 86400000))"
    by blast
  have c: "map_option (snd \<circ> snd) (fetchLastUploadDates exampleEnv [cacheKey ''UCa'' \<mapsto> ?e] [''UCa'']
            exampleSettings False) = Some []"
    by code_simp
  from ok[rule_format, of "''2023-11-04T22:13:20Z''"]
  have "r_status r = Ok \<and> r_daysAgo r = Some (Num 10)" by (simp add: exampleEnv_def)
  with ret r c show ?thesis by simp
qed

text \<open>
  C6. Take 120 distinct identifiers (channel ids: none names a property of
  \<^verbatim>\<open>Object.prototype\<close>), none served from the cache and none with a cached playlist id.
  The scan makes exactly three batch calls, before any detail call: requests to
  \<^verbatim>\<open>channels\<close> whose \<^verbatim>\<open>id\<close> parameter lists the first 50, the next 50 and the last 20
  identifiers. When the call of a chunk fails with \<open>e\<close>, every identifier of that chunk
  gets the error entry of \<open>e\<close> (\<^verbatim>\<open>api_error\<close> or \<^verbatim>\<open>quota_exceeded\<close>) and no detail call
  is made for it. The identifiers of a chunk whose call succeeds are not affected by the
  failure of another chunk: each goes on to step 3 with the playlist that the answers of
  the successful calls give for it, and gets the detail call for that playlist and the
  entry made from it, or, where the answers give no playlist, the entry \<^verbatim>\<open>no_uploads\<close>
  and no detail call.
\<close>

theorem batches_of_120:
  assumes "length channelIds = 120" "distinct channelIds"
    "\<forall>c \<in> set channelIds. \<not> inheritedName c"
    "\<forall>c \<in> set channelIds. \<not> cacheHit E s bypassCache store c \<and> cachedPlaylistId store c = None"
    "1 \<le> concurrency s"
  shows
    "let chunks = [take 50 channelIds, take 50 (drop 50 channelIds), drop 100 channelIds];
         request = (\<lambda>batch. Url ''channels''
                      [(''part'', ''contentDetails''), (''id'', join '','' batch), (''key'', apiKey s)]);
         detailRequest = (\<lambda>p. Url ''playlistItems''
                      [(''part'', ''contentDetails''), (''playlistId'', p), (''maxResults'', ''1''),
                       (''key'', apiKey s)])
     in \<exists>res st calls.
          fetchLastUploadDates E store channelIds s bypassCache = Some (res, st, calls)
          \<and> map length chunks = [50, 50, 20]
          \<and> batchCalls calls =
              map (\<lambda>k. BatchCall (chunks ! k)
                          (fst (fetchJsonWithRetry (channelsAnswer E k) (request (chunks ! k)))))
                [0, 1, 2]
          \<and> take 3 calls = batchCalls calls
          \<and> (\<forall>k<3. \<forall>e. snd (fetchJsonWithRetry (channelsAnswer E k) (request (chunks ! k))) = Thrown e \<longrightarrow>
                (\<forall>c \<in> set (chunks ! k).
                    res c = Some (errorResult s e)
                    \<and> r_status (errorResult s e) \<in> {ApiError, QuotaExceeded}
                    \<and> (\<forall>p evs. DetailCall c p evs \<notin> set calls)))
          \<and> (\<forall>k<3. \<forall>d. snd (fetchJsonWithRetry (channelsAnswer E k) (request (chunks ! k))) = Json d \<longrightarrow>
                (\<forall>c \<in> set (chunks ! k).
                    (\<forall>p. resolvedHandle E s channelIds c = Some p \<and> p \<noteq> [] \<longrightarrow>
                        DetailCall c p (fst (fetchJsonWithRetry (playlistItemsAnswer E c) (detailRequest p)))
                          \<in> set calls
                        \<and> res c = Some (detailResult E s c p))
                    \<and> (\<not> truthy (resolvedHandle E s channelIds c) \<longrightarrow>
                        (\<forall>p evs. DetailCall c p evs \<notin> set calls)
                        \<and> res c = Some (noUploadsResult s))))"
proof -
  define chunks where "chunks = [take 50 channelIds, take 50 (drop 50 channelIds), drop 100 channelIds]"
  from scan_returns[OF assms(5), of E store channelIds bypassCache] obtain res st calls where
    ret: "fetchLastUploadDates E store channelIds s bypassCache = Some (res, st, calls)" by blast
  note c120 = chunks_120[OF assms(1)]
  note stage = batch_stage[OF ret assms(3) assms(4) assms(2)]
  have three: "k < 3 \<longleftrightarrow> k = 0 \<or> k = 1 \<or> k = 2" for k :: nat by arith
  have ch: "chunks ! k = chunk channelIds k" if "k < 3" for k
    using that c120 unfolding three chunks_def by auto
  have url: "Url ''channels'' [(''part'', ''contentDetails''), (''id'', join '','' batch), (''key'', apiKey s)]
      = channelsUrl s batch" for batch
    by (simp add: channelsUrl_def ytUrl_def)
  have durl: "Url ''playlistItems'' [(''part'', ''contentDetails''), (''playlistId'', p),
      (''maxResults'', ''1''), (''key'', apiKey s)] = detailUrl s p" for p
    by (simp add: detailUrl_def ytUrl_def)
  have out: "snd (fetchJsonWithRetry (channelsAnswer E k) (channelsUrl s (chunks ! k)))
      = batchOutcome E s channelIds k" if "k < 3" for k
    by (simp add: batchOutcome_def ch[OF that])
  have lens: "map length chunks = [50, 50, 20]"
    unfolding chunks_def using assms(1) by simp
  have upt3: "[0..<3] = [0, 1, 2]" by (simp add: upt_rec numeral_3_eq_3)
  have bc: "batchCalls calls =
      map (\<lambda>k. BatchCall (chunks ! k)
                  (fst (fetchJsonWithRetry (channelsAnswer E k) (channelsUrl s (chunks ! k))))) [0, 1, 2]"
    unfolding stage(1) c120(1) upt3 by (simp add: batchCall_def ch)
  have tk: "take 3 calls = batchCalls calls" using stage(2) by (simp add: c120(1))
  have failed: "\<forall>k<3. \<forall>e. snd (fetchJsonWithRetry (channelsAnswer E k) (channelsUrl s (chunks ! k))) = Thrown e \<longrightarrow>
                (\<forall>c \<in> set (chunks ! k).
                    res c = Some (errorResult s e)
                    \<and> r_status (errorResult s e) \<in> {ApiError, QuotaExceeded}
                    \<and> (\<forall>p evs. DetailCall c p evs \<notin> set calls))"
  proof (intro allI impI ballI)
    fix k e c
    assume k: "k < 3"
      and e: "snd (fetchJsonWithRetry (channelsAnswer E k) (channelsUrl s (chunks ! k))) = Thrown e"
      and c: "c \<in> set (chunks ! k)"
    from k have k': "k < nchunks channelIds" by (simp add: c120(1))
    from c have c': "c \<in> set (chunk channelIds k)" by (simp add: ch[OF k])
    from e have "thrownBy (batchOutcome E s channelIds k) = Some e" by (simp add: out[OF k])
    from stage(3)[OF k' c' this]
    have "res c = Some (errorResult s e)" "\<forall>p evs. DetailCall c p evs \<notin> set calls" by simp_all
    moreover have "r_status (errorResult s e) \<in> {ApiError, QuotaExceeded}"
      by (simp add: errorResult_def statusOfError_def)
    ultimately show "res c = Some (errorResult s e)
               \<and> r_status (errorResult s e) \<in> {ApiError, QuotaExceeded}
               \<and> (\<forall>p evs. DetailCall c p evs \<notin> set calls)" by (intro conjI)
  qed
  have passed: "\<forall>k<3. \<forall>d. snd (fetchJsonWithRetry (channelsAnswer E k) (channelsUrl s (chunks ! k))) = Json d \<longrightarrow>
                (\<forall>c \<in> set (chunks ! k).
                    (\<forall>p. resolvedHandle E s channelIds c = Some p \<and> p \<noteq> [] \<longrightarrow>
                        DetailCall c p (fst (fetchJsonWithRetry (playlistItemsAnswer E c) (detailUrl s p)))
                          \<in> set calls
                        \<and> res c = Some (detailResult E s c p))
                    \<and> (\<not> truthy (resolvedHandle E s channelIds c) \<longrightarrow>
                        (\<forall>p evs. DetailCall c p evs \<notin> set calls)
                        \<and> res c = Some (noUploadsResult s)))"
  proof (intro allI impI ballI)
    fix k d c
    assume k: "k < 3"
      and e: "snd (fetchJsonWithRetry (channelsAnswer E k) (channelsUrl s (chunks ! k))) = Json d"
      and c: "c \<in> set (chunks ! k)"
    from k have k': "k < nchunks channelIds" by (simp add: c120(1))
    from c have c': "c \<in> set (chunk channelIds k)" by (simp add: ch[OF k])
    from e have t: "thrownBy (batchOutcome E s channelIds k) = None" by (simp add: out[OF k])
    have "\<forall>p. resolvedHandle E s channelIds c = Some p \<and> p \<noteq> [] \<longrightarrow>
            DetailCall c p (fst (fetchJsonWithRetry (playlistItemsAnswer E c) (detailUrl s p))) \<in> set calls
            \<and> res c = Some (detailResult E s c p)"
      using stage(4)[OF k' c' t] by blast
    moreover have "\<not> truthy (resolvedHandle E s channelIds c) \<longrightarrow>
            (\<forall>p evs. DetailCall c p evs \<notin> set calls) \<and> res c = Some (noUploadsResult s)"
      using stage(5)[OF k' c' t] by blast
    ultimately show "(\<forall>p. resolvedHandle E s channelIds c = Some p \<and> p \<noteq> [] \<longrightarrow>
                        DetailCall c p (fst (fetchJsonWithRetry (playlistItemsAnswer E c) (detailUrl s p)))
                          \<in> set calls
                        \<and> res c = Some (detailResult E s c p))
                    \<and> (\<not> truthy (resolvedHandle E s channelIds c) \<longrightarrow>
                        (\<forall>p evs. DetailCall c p evs \<notin> set calls)
                        \<and> res c = Some (noUploadsResult s))" ..
  qed
  from ret lens bc tk failed passed show ?thesis
    unfolding Let_def url durl chunks_def[symmetric]
    by (intro exI[of _ res] exI[of _ st] exI[of _ calls] conjI)
qed

theorem batches_of_120_witness:
  "\<exists>res st calls.
     fetchLastUploadDates secondChunkFailsEnv Map.empty manyIds exampleSettings False = Some (res, st, calls)
     \<and> take 3 calls =
         [BatchCall (take 50 manyIds)
            [Fetch (Url ''channels'' [(''part'', ''contentDetails''),
                      (''id'', join '','' (take 50 manyIds)), (''key'', ''KEY'')])],
          BatchCall (take 50 (drop 50 manyIds))
            [Fetch (Url ''channels'' [(''part'', ''contentDetails''),
                      (''id'', join '','' (take 50 (drop 50 manyIds))), (''key'', ''KEY'')])],
          BatchCall (drop 100 manyIds)
            [Fetch (Url ''channels'' [(''part'', ''contentDetails''),
                      (''id'', join '','' (drop 100 manyIds)), (''key'', ''KEY'')])]]
     \<and> map_option r_status (res (''UC'' @ replicate 70 (CHR ''x''))) = Some ApiError
     \<and> map_option r_error (res (''UC'' @ replicate 70 (CHR ''x''))) = Some (Some ''backend error'')
     \<and> (\<forall>p evs. DetailCall (''UC'' @ replicate 70 (CHR ''x'')) p evs \<notin> set calls)
     \<and> DetailCall ''UCxxxxxxx'' ''UU7''
          [Fetch (Url ''playlistItems'' [(''part'', ''contentDetails''), (''playlistId'', ''UU7''),
                    (''maxResults'', ''1''), (''key'', ''KEY'')])] \<in> set calls
     \<and> map_option r_status (res ''UCxxxxxxx'') = Some Ok
     \<and> res (''UC'' @ replicate 8 (CHR ''x'')) = Some (noUploadsResult exampleSettings)"
proof -
  let ?E = secondChunkFailsEnv and ?s = exampleSettings
  let ?e = "\<lparr> message = ''backend error'', errStatus = Some 500, isQuota = False \<rparr>"
  let ?i7 = "\<lparr> item_id = ''UCxxxxxxx'', uploads = Some ''UU7'' \<rparr>"
  let ?c70 = "''UC'' @ replicate 70 (CHR ''x'')" and ?c8 = "''UC'' @ replicate 8 (CHR ''x'')"
  let ?c7 = "''UCxxxxxxx''"
  have c7: "?c7 = ''UC'' @ replicate 7 (CHR ''x'')" by (simp add: numeral_eq_Suc)
  have c8: "?c7 \<noteq> ?c8" by (simp add: numeral_eq_Suc)
  have len: "length manyIds = 120" by (simp add: manyIds_def)
  have miss: "\<forall>c \<in> set manyIds. \<not> cacheHit ?E ?s False Map.empty c \<and> cachedPlaylistId Map.empty c = None"
    by (simp add: cacheHit_def isFresh_def cachedPlaylistId_def)
  have cap: "1 \<le> concurrency ?s" and key: "apiKey ?s = ''KEY''" by (simp_all add: exampleSettings_def)
  have out: "snd (fetchJsonWithRetry (channelsAnswer ?E k) u) =
      (if k = 1 then Thrown ?e else Json \<lparr> items = Some [?i7] \<rparr>)" for k u
    by (subst fetch_first_answer)
       (simp_all add: secondChunkFailsEnv_def exampleEnv_def answerFailed_def answer200_def
          rateLimited_def finalOutcome_def ok_def httpError_def)
  have ev: "fst (fetchJsonWithRetry (channelsAnswer ?E k) u) = [Fetch u]" for k u
    by (rule fetch_first_events)
       (simp add: secondChunkFailsEnv_def exampleEnv_def answerFailed_def answer200_def rateLimited_def)
  have dev: "fst (fetchJsonWithRetry (playlistItemsAnswer ?E c) u) = [Fetch u]" for c u
    by (rule fetch_first_events)
       (simp add: secondChunkFailsEnv_def exampleEnv_def answer200_def rateLimited_def)
  have dout: "detailOutcome ?E ?s c p =
      Json \<lparr> items = Some [\<lparr> videoPublishedAt = Some ''2023-11-04T22:13:20Z'', publishedAt = None \<rparr>] \<rparr>"
    for c p
    unfolding detailOutcome_def
    by (subst fetch_first_answer)
       (simp_all add: secondChunkFailsEnv_def exampleEnv_def answer200_def rateLimited_def
          finalOutcome_def ok_def)
  have sset: "storageSetError ?E c = None" for c
    by (simp add: secondChunkFailsEnv_def exampleEnv_def)
  have ok: "r_status (detailResult ?E ?s c p) = Ok" for c p
    unfolding detailResult_def dout sset
    by (simp add: extractLastUploadAt_def timedResult_def truthy_def)
  have items: "answeredItems ?E ?s manyIds k = (if k = 1 then [] else [?i7])" for k
    by (simp add: answeredItems_def batchOutcome_def out)
  have upt3: "[0..<3] = [0, 1, 2]" by (simp add: upt_rec numeral_3_eq_3)
  have n: "nchunks manyIds = 3" using len by (simp add: nchunks_def)
  have h7: "resolvedHandle ?E ?s manyIds ?c7 = Some ''UU7''"
    by (simp add: resolvedHandle_def n upt3 items handleIn_def)
  have h8: "\<not> truthy (resolvedHandle ?E ?s manyIds ?c8)"
    using c8 by (simp add: resolvedHandle_def n upt3 items handleIn_def truthy_def)
  have in1: "?c70 \<in> set (take 50 (drop 50 manyIds))" unfolding manyIds_chunks by (simp add: image_iff)
  have in7: "?c7 \<in> set (take 50 manyIds)" unfolding manyIds_chunks c7 by (simp add: image_iff)
  have in8: "?c8 \<in> set (take 50 manyIds)" unfolding manyIds_chunks by (simp add: image_iff)
  from batches_of_120[OF len manyIds_distinct manyIds_plain miss cap, unfolded Let_def key out ev dev]
  obtain res st calls where
    ret: "fetchLastUploadDates ?E Map.empty manyIds ?s False = Some (res, st, calls)" and
    bc: "batchCalls calls =
          map (\<lambda>k. BatchCall ([take 50 manyIds, take 50 (drop 50 manyIds), drop 100 manyIds] ! k)
                 [Fetch (Url ''channels'' [(''part'', ''contentDetails''),
                    (''id'', join '','' ([take 50 manyIds, take 50 (drop 50 manyIds), drop 100 manyIds] ! k)),
                    (''key'', ''KEY'')])]) [0, 1, 2]" and
    tk: "take 3 calls = batchCalls calls" and
    f: "\<forall>k<3. \<forall>e. (if k = 1 then Thrown ?e else Json \<lparr> items = Some [?i7] \<rparr>) = Thrown e \<longrightarrow>
           (\<forall>c \<in> set ([take 50 manyIds, take 50 (drop 50 manyIds), drop 100 manyIds] ! k).
               res c = Some (errorResult ?s e)
               \<and> r_status (errorResult ?s e) \<in> {ApiError, QuotaExceeded}
               \<and> (\<forall>p evs. DetailCall c p evs \<notin> set calls))" and
    p: "\<forall>k<3. \<forall>d. (if k = 1 then Thrown ?e else Json \<lparr> items = Some [?i7] \<rparr>) = Json d \<longrightarrow>
           (\<forall>c \<in> set ([take 50 manyIds, take 50 (drop 50 manyIds), drop 100 manyIds] ! k).
               (\<forall>p. resolvedHandle ?E ?s manyIds c = Some p \<and> p \<noteq> [] \<longrightarrow>
                   DetailCall c p
                     [Fetch (Url ''playlistItems'' [(''part'', ''contentDetails''), (''playlistId'', p),
                        (''maxResults'', ''1''), (''key'', ''KEY'')])] \<in> set calls
                   \<and> res c = Some (detailResult ?E ?s c p))
               \<and> (\<not> truthy (resolvedHandle ?E ?s manyIds c) \<longrightarrow>
                   (\<forall>p evs. DetailCall c p evs \<notin> set calls)
                   \<and> res c = Some (noUploadsResult ?s)))"
    by (elim exE conjE)
  from f[rule_format, of 1 ?e ?c70] in1
  have r70: "res ?c70 = Some (errorResult ?s ?e)"
    and n70: "\<forall>p evs. DetailCall ?c70 p evs \<notin> set calls" by simp_all
  from p[rule_format, of 0 "\<lparr> items = Some [?i7] \<rparr>" ?c7] in7 h7
  have d7: "DetailCall ?c7 ''UU7''
          [Fetch (Url ''playlistItems'' [(''part'', ''contentDetails''), (''playlistId'', ''UU7''),
                    (''maxResults'', ''1''), (''key'', ''KEY'')])] \<in> set calls"
    and r7: "res ?c7 = Some (detailResult ?E ?s ?c7 ''UU7'')" by simp_all
  from p[rule_format, of 0 "\<lparr> items = Some [?i7] \<rparr>" ?c8] in8 h8
  have r8: "res ?c8 = Some (noUploadsResult ?s)" by simp
  from r70 have s70: "map_option r_status (res ?c70) = Some ApiError"
    "map_option r_error (res ?c70) = Some (Some ''backend error'')"
    by (simp_all add: errorResult_def statusOfError_def)
  from r7 ok have s7: "map_option r_status (res ?c7) = Some Ok" by simp
  from tk bc have t3: "take 3 calls =
         [BatchCall (take 50 manyIds)
            [Fetch (Url ''channels'' [(''part'', ''contentDetails''),
                      (''id'', join '','' (take 50 manyIds)), (''key'', ''KEY'')])],
          BatchCall (take 50 (drop 50 manyIds))
            [Fetch (Url ''channels'' [(''part'', ''contentDetails''),
                      (''id'', join '','' (take 50 (drop 50 manyIds))), (''key'', ''KEY'')])],
          BatchCall (drop 100 manyIds)
            [Fetch (Url ''channels'' [(''part'', ''contentDetails''),
                      (''id'', join '','' (drop 100 manyIds)), (''key'', ''KEY'')])]]"
    by simp
  from ret t3 s70 n70 d7 s7 r8 show ?thesis
    by (intro exI[of _ res] exI[of _ st] exI[of _ calls] conjI)
qed




text \<open>
  C9. When the detail call made for an identifier fails (the fetcher throws \<open>e\<close>), the
  entry of the identifier has the status of \<open>e\<close>, \<^verbatim>\<open>api_error\<close> or \<^verbatim>\<open>quota_exceeded\<close>,
  and the storage holds under its key what it held before the scan. The storage differs
  from what it was only under the key of a channel whose detail call succeeded and whose
  write was accepted.
\<close>

theorem failed_detail_fetch_keeps_cache:
  assumes "fetchLastUploadDates E store channelIds s bypassCache = Some (res, st, calls)"
    "DetailCall c p evs \<in> set calls" "detailOutcome E s c p = Thrown e"
  shows "res c = Some (errorResult s e)
         \<and> r_status (errorResult s e) = statusOfError e
         \<and> statusOfError e \<in> {ApiError, QuotaExceeded}
         \<and> st (cacheKey c) = store (cacheKey c)
         \<and> (\<forall>k. st k \<noteq> store k \<longrightarrow>
               (\<exists>c' p' evs' d. k = cacheKey c' \<and> DetailCall c' p' evs' \<in> set calls
                   \<and> detailOutcome E s c' p' = Json d \<and> storageSetError E c' = None))"
  using assms(1)
proof (rule scan_tasks)
  fix tasks
  assume a: "\<And>c p evs. DetailCall c p evs \<in> set calls \<Longrightarrow> (c, p) \<in> set tasks"
    and rs: "\<And>c p. (c, p) \<in> set tasks \<Longrightarrow> res c = Some (detailResult E s c p)"
    and same: "\<And>k. (\<forall>c p. (c, p) \<in> set tasks \<and> k = cacheKey c \<longrightarrow> detailWrite E s c p = None) \<Longrightarrow> st k = store k"
  from rs[OF a[OF assms(2)]] have r: "res c = Some (errorResult s e)"
    by (simp add: detailResult_def assms(3))
  have w: "detailWrite E s c' p' = None" if "(c', p') \<in> set tasks" "cacheKey c = cacheKey c'" for c' p'
  proof -
    from that(2) have "c' = c" by simp
    moreover have "detailOutcome E s c p' = Thrown e"
      using detailOutcome_playlist[of E s c p' p] assms(3) by simp
    ultimately show ?thesis by (simp add: detailWrite_def)
  qed
  have "st (cacheKey c) = store (cacheKey c)"
    by (rule same) (use w in blast)
  moreover have "\<forall>k. st k \<noteq> store k \<longrightarrow>
               (\<exists>c' p' evs' d. k = cacheKey c' \<and> DetailCall c' p' evs' \<in> set calls
                   \<and> detailOutcome E s c' p' = Json d \<and> storageSetError E c' = None)"
    using store_changes[OF assms(1)] by blast
  moreover have "r_status (errorResult s e) = statusOfError e" by (simp add: errorResult_def)
  moreover have "statusOfError e \<in> {ApiError, QuotaExceeded}" by (simp add: statusOfError_def)
  ultimately show ?thesis using r by (intro conjI)
qed

theorem failed_detail_fetch_keeps_cache_witness:
  "\<exists>res st calls.
     fetchLastUploadDates failingDetailEnv staleStore [''UCa''] exampleSettings False = Some (res, st, calls)
     \<and> map_option r_status (res ''UCa'') = Some ApiError
     \<and> map_option r_error (res ''UCa'') = Some (Some ''backend error'')
     \<and> st (cacheKey ''UCa'') = staleStore (cacheKey ''UCa'')"
proof -
  obtain res st calls where
    ret: "fetchLastUploadDates failingDetailEnv staleStore [''UCa''] exampleSettings False
            = Some (res, st, calls)"
    using scan_returns[of exampleSettings failingDetailEnv staleStore "[''UCa'']" False]
    by (auto simp: exampleSettings_def)
  have "map_option (snd \<circ> snd)
          (fetchLastUploadDates failingDetailEnv staleStore [''UCa''] exampleSettings False) =
        Some [DetailCall ''UCa'' ''UUa'' [Fetch (detailUrl exampleSettings ''UUa'')]]"
    by code_simp
  with ret have c: "DetailCall ''UCa'' ''UUa'' [Fetch (detailUrl exampleSettings ''UUa'')] \<in> set calls"
    by simp
  have out: "detailOutcome failingDetailEnv exampleSettings ''UCa'' ''UUa'' =
        Thrown \<lparr> message = ''backend error'', errStatus = Some 500, isQuota = False \<rparr>"
    by code_simp
  from failed_detail_fetch_keeps_cache[OF ret c out] ret show ?thesis
    by (auto simp: errorResult_def statusOfError_def)
qed

text \<open>
  C10. With an empty list of identifiers the scan returns the empty result map, makes no
  call to the API (no batch call, no detail call) and leaves the storage as it is, whatever
  the settings, the cache and the environment.
\<close>

theorem empty_scan:
  "fetchLastUploadDates E store [] s bypassCache = Some (Map.empty, store, [])"
  by (simp add: fetchLastUploadDates_def)

end
